theory Spec2Isabelle
  imports Main
begin

section \<open>JavaScript values used by the two scripts\<close>

text \<open>
  The scripts under verification are \<^verbatim>\<open>popup-system.js\<close> (sequence popups, scroll-triggered
  system popups, image gallery) and \<^verbatim>\<open>settings.js\<close> (theme and font size). A DOM attribute,
  a \<^verbatim>\<open>dataset\<close> entry and a \<^verbatim>\<open>localStorage\<close> item are a string or absent
  (\<^verbatim>\<open>null\<close>/\<^verbatim>\<open>undefined\<close>): \<open>string option\<close>.
\<close>

text \<open>Truthiness of a string-or-absent value: absent and the empty string are falsy.\<close>

definition truthy :: "string option \<Rightarrow> bool" where
  "truthy v = (case v of None \<Rightarrow> False | Some s \<Rightarrow> s \<noteq> [])"

text \<open>\<^verbatim>\<open>v || d\<close> for a string-or-absent \<open>v\<close> and a string default \<open>d\<close>.\<close>

definition js_or :: "string option \<Rightarrow> string \<Rightarrow> string" where
  "js_or v d = (case v of None \<Rightarrow> d | Some s \<Rightarrow> if s = [] then d else s)"

text \<open>\<^verbatim>\<open>Array.prototype.indexOf\<close>: the first position of the value, \<open>-1\<close> when absent.\<close>

fun indexOf :: "'a list \<Rightarrow> 'a \<Rightarrow> int" where
  "indexOf [] v = -1"
| "indexOf (x # xs) v = (if x = v then 0 else (let i = indexOf xs v in if i < 0 then -1 else i + 1))"

text \<open>\<^verbatim>\<open>xs[i]\<close>: the element, or \<^verbatim>\<open>undefined\<close> (\<open>None\<close>) outside \<open>0 .. length - 1\<close>.\<close>

definition js_nth :: "'a list \<Rightarrow> int \<Rightarrow> 'a option" where
  "js_nth xs i = (if 0 \<le> i \<and> i < int (length xs) then Some (xs ! nat i) else None)"

section \<open>settings.js: the preference store\<close>

subsection \<open>Configuration\<close>

definition STORAGE_KEYS_theme :: string where
  "STORAGE_KEYS_theme = ''story-theme''"

definition STORAGE_KEYS_fontSize :: string where
  "STORAGE_KEYS_fontSize = ''story-font-size''"

definition FONT_SIZES :: "string list" where
  "FONT_SIZES = [''small'', ''normal'', ''large'', ''x-large'']"

definition THEMES :: "string list" where
  "THEMES = [''light'', ''dark'']"

definition DEFAULT_THEME :: string where
  "DEFAULT_THEME = ''light''"

definition DEFAULT_FONT_SIZE :: string where
  "DEFAULT_FONT_SIZE = ''normal''"

subsection \<open>State\<close>

text \<open>
  What the functions of \<^verbatim>\<open>settings.js\<close> read and write: the two attributes of the document
  root, \<^verbatim>\<open>localStorage\<close>, the console, the custom events dispatched on \<^verbatim>\<open>window\<close>, and
  the toggle buttons of the page (each with its \<^verbatim>\<open>data-theme\<close> or \<^verbatim>\<open>data-size\<close>
  attribute and its \<^verbatim>\<open>is-active\<close> class). \<^verbatim>\<open>localStorage\<close> is taken as a total key-value
  store; its own failures (quota, disabled storage) are outside the script.
\<close>

record settings =
  root_theme :: "string option"
  root_font_size :: "string option"
  storage :: "string \<rightharpoonup> string"
  warnings :: "string list"
  dispatched :: "(string \<times> string) list"
  theme_btns :: "(string option \<times> bool) list"
  font_btns :: "(string option \<times> bool) list"

subsection \<open>Theme functions\<close>

text \<open>\<^verbatim>\<open>btn.classList.toggle('is-active', btnTheme === theme)\<close> on every button.\<close>

definition updateThemeButtons :: "string \<Rightarrow> settings \<Rightarrow> settings" where
  "updateThemeButtons theme s =
     s\<lparr>theme_btns := map (\<lambda>(a, _). (a, a = Some theme)) (theme_btns s)\<rparr>"

definition setTheme :: "string \<Rightarrow> bool \<Rightarrow> settings \<Rightarrow> settings" where
  "setTheme theme save s =
     (if theme \<notin> set THEMES then s\<lparr>warnings := warnings s @ [''Invalid theme: '' @ theme]\<rparr>
      else
        let s1 = s\<lparr>root_theme := Some theme\<rparr>;
            s2 = (if save then s1\<lparr>storage := (storage s1)(STORAGE_KEYS_theme \<mapsto> theme)\<rparr> else s1);
            s3 = updateThemeButtons theme s2
        in s3\<lparr>dispatched := dispatched s3 @ [(''themechange'', theme)]\<rparr>)"

definition getTheme :: "settings \<Rightarrow> string" where
  "getTheme s = js_or (root_theme s) DEFAULT_THEME"

definition toggleTheme :: "settings \<Rightarrow> settings" where
  "toggleTheme s =
     (let currentTheme = js_or (root_theme s) DEFAULT_THEME;
          newTheme = (if currentTheme = ''dark'' then ''light'' else ''dark'')
      in setTheme newTheme True s)"

subsection \<open>Font size functions\<close>

definition updateFontSizeButtons :: "string \<Rightarrow> settings \<Rightarrow> settings" where
  "updateFontSizeButtons sz s =
     s\<lparr>font_btns := map (\<lambda>(a, _). (a, a = Some sz)) (font_btns s)\<rparr>"

definition setFontSize :: "string \<Rightarrow> bool \<Rightarrow> settings \<Rightarrow> settings" where
  "setFontSize sz save s =
     (if sz \<notin> set FONT_SIZES then s\<lparr>warnings := warnings s @ [''Invalid font size: '' @ sz]\<rparr>
      else
        let s1 = s\<lparr>root_font_size := Some sz\<rparr>;
            s2 = (if save then s1\<lparr>storage := (storage s1)(STORAGE_KEYS_fontSize \<mapsto> sz)\<rparr> else s1);
            s3 = updateFontSizeButtons sz s2
        in s3\<lparr>dispatched := dispatched s3 @ [(''fontsizechange'', sz)]\<rparr>)"

definition getFontSize :: "settings \<Rightarrow> string" where
  "getFontSize s = js_or (root_font_size s) DEFAULT_FONT_SIZE"

text \<open>
  \<^verbatim>\<open>setFontSize(FONT_SIZES[i])\<close>: an index outside the array reads \<^verbatim>\<open>undefined\<close>, which
  \<^verbatim>\<open>setFontSize\<close> rejects with its warning.
\<close>

definition setFontSize_at :: "int \<Rightarrow> settings \<Rightarrow> settings" where
  "setFontSize_at i s =
     (case js_nth FONT_SIZES i of
        Some sz \<Rightarrow> setFontSize sz True s
      | None \<Rightarrow> s\<lparr>warnings := warnings s @ [''Invalid font size: undefined'']\<rparr>)"

definition increaseFontSize :: "settings \<Rightarrow> settings" where
  "increaseFontSize s =
     (let currentIndex = indexOf FONT_SIZES (getFontSize s)
      in if currentIndex < int (length FONT_SIZES) - 1 then setFontSize_at (currentIndex + 1) s else s)"

definition decreaseFontSize :: "settings \<Rightarrow> settings" where
  "decreaseFontSize s =
     (let currentIndex = indexOf FONT_SIZES (getFontSize s)
      in if currentIndex > 0 then setFontSize_at (currentIndex - 1) s else s)"

subsection \<open>Initialisation\<close>

text \<open>
  \<open>prefersDark\<close> is what \<^verbatim>\<open>window.matchMedia('(prefers-color-scheme: dark)').matches\<close>
  reports.
\<close>

definition initSettings :: "bool \<Rightarrow> settings \<Rightarrow> settings" where
  "initSettings prefersDark s =
     (let savedTheme = storage s STORAGE_KEYS_theme;
          s1 = (case savedTheme of
                  Some t \<Rightarrow>
                    if truthy savedTheme \<and> t \<in> set THEMES then setTheme t False s
                    else setTheme (if prefersDark then ''dark'' else ''light'') False s
                | None \<Rightarrow> setTheme (if prefersDark then ''dark'' else ''light'') False s);
          savedFontSize = storage s1 STORAGE_KEYS_fontSize
      in (case savedFontSize of
            Some f \<Rightarrow>
              if truthy savedFontSize \<and> f \<in> set FONT_SIZES then setFontSize f False s1
              else setFontSize DEFAULT_FONT_SIZE False s1
          | None \<Rightarrow> setFontSize DEFAULT_FONT_SIZE False s1))"

text \<open>The page as the script finds it: nothing set, nothing stored, no buttons.\<close>

definition settings0 :: settings where
  "settings0 = \<lparr>root_theme = None, root_font_size = None, storage = Map.empty, warnings = [],
     dispatched = [], theme_btns = [], font_btns = []\<rparr>"

section \<open>popup-system.js: shared utilities\<close>

text \<open>
  The backdrop is one element, created on first use: \<open>None\<close> while it does not exist, then
  \<open>Some v\<close> with \<open>v\<close> its \<^verbatim>\<open>is-visible\<close> class. \<open>body_overflow\<close> is
  \<^verbatim>\<open>document.body.style.overflow\<close>. Each component below is modelled on its own, with
  the page as it alone drives it.
\<close>

record page =
  backdrop :: "bool option"
  body_overflow :: string

definition showBackdrop :: "page \<Rightarrow> page" where
  "showBackdrop p = p\<lparr>backdrop := Some True, body_overflow := ''hidden''\<rparr>"

definition hideBackdrop :: "page \<Rightarrow> page" where
  "hideBackdrop p = p\<lparr>backdrop := Some False, body_overflow := []\<rparr>"

definition page0 :: page where
  "page0 = \<lparr>backdrop = None, body_overflow = []\<rparr>"

text \<open>
  The only exception the modelled code can raise is the \<^verbatim>\<open>TypeError\<close> of reading a property
  of \<^verbatim>\<open>null\<close> (a container that does not exist). A function that can raise returns
  \<open>js_error + state\<close>.
\<close>

datatype js_error = TypeError

text \<open>What a popup shows: nothing, an image (source and alternative text), or caller-supplied HTML.\<close>

datatype markup = NoMarkup | Img string string | Html string

subsection \<open>Timers and events\<close>

text \<open>
  \<^verbatim>\<open>setTimeout(f, d)\<close> at time \<open>t\<close> adds \<open>(t + d, f)\<close> to the pending timers. The event loop
  runs the pending timer with the least due time, the earliest registered among equals.
\<close>

fun earliest :: "(nat \<times> 'a) list \<Rightarrow> (nat \<times> 'a) option" where
  "earliest [] = None"
| "earliest (t # ts) =
     (case earliest ts of
        None \<Rightarrow> Some t
      | Some u \<Rightarrow> if fst u < fst t then Some u else Some t)"

text \<open>
  What happens to a page: a click, a key press, the intersection observer reporting entries
  (target marker, \<^verbatim>\<open>isIntersecting\<close>), time passing with no timer run, and the event loop
  running the next pending timer (time moves on to its due time when that is still ahead).
\<close>

datatype event =
    Click
  | KeyDown string
  | Intersect "(nat \<times> bool) list"
  | Elapse nat
  | Tick

section \<open>Scenario A: sequence popups\<close>

text \<open>
  An item \<^verbatim>\<open>{type, content, alt}\<close>. It is an object, hence truthy: \<^verbatim>\<open>!item\<close> holds exactly
  when \<^verbatim>\<open>items[currentIndex]\<close> is outside the list.
\<close>

record seq_item =
  item_type :: string
  item_content :: string
  item_alt :: "string option"

text \<open>
  The container element \<^verbatim>\<open>#sequence-popup\<close>: its \<^verbatim>\<open>innerHTML\<close> (the content and the
  continue line, \<open>None\<close> while empty), its \<^verbatim>\<open>is-visible\<close> class, and whether it is in the
  document.
\<close>

record seq_box =
  box_inner :: "(markup \<times> string) option"
  box_visible :: bool
  box_attached :: bool

datatype seq_timer = NextTimer | CompleteTimer

text \<open>What the presenter does that a page script can observe: an item rendered, the callback called.\<close>

datatype seq_log = Rendered int | Called nat

text \<open>
  \<open>onComplete\<close> is the callback (\<open>None\<close> for \<^verbatim>\<open>null\<close>), known by a number; calling it is
  recorded in the trace, and what it does is the page's business. \<open>handlers\<close> is the pair of
  closures \<^verbatim>\<open>_handleClick\<close>/\<^verbatim>\<open>_handleKeydown\<close> last created, \<open>seq_listeners\<close> the pairs
  registered on \<^verbatim>\<open>document\<close>, in order.
\<close>

record sequence =
  items :: "seq_item list"
  currentIndex :: int
  seq_container :: "seq_box option"
  isActive :: bool
  onComplete :: "nat option"
  handlers :: "nat option"
  seq_listeners :: "nat list"
  seq_fresh :: nat
  seq_page :: page
  seq_now :: nat
  seq_timers :: "(nat \<times> seq_timer) list"
  seq_trace :: "seq_log list"

definition SequencePopups0 :: sequence where
  "SequencePopups0 = \<lparr>items = [], currentIndex = 0, seq_container = None, isActive = False,
     onComplete = None, handlers = None, seq_listeners = [], seq_fresh = 0, seq_page = page0,
     seq_now = 0, seq_timers = [], seq_trace = []\<rparr>"

text \<open>
  \<^verbatim>\<open>createContainer\<close>: the element with the id \<^verbatim>\<open>sequence-popup\<close> still in the document
  is removed, and a new empty one is appended and kept in \<^verbatim>\<open>this.container\<close>.
\<close>

definition createContainer :: "sequence \<Rightarrow> sequence" where
  "createContainer s =
     s\<lparr>seq_container := Some \<lparr>box_inner = None, box_visible = False, box_attached = True\<rparr>\<rparr>"

definition complete :: "sequence \<Rightarrow> js_error + sequence" where
  "complete s =
     (let s1 = s\<lparr>isActive := False\<rparr>
      in case seq_container s1 of
           None \<Rightarrow> Inl TypeError
         | Some c \<Rightarrow>
             Inr (s1\<lparr>seq_container := Some (c\<lparr>box_visible := False\<rparr>),
                     seq_page := hideBackdrop (seq_page s1),
                     seq_timers := seq_timers s1 @ [(seq_now s1 + 300, CompleteTimer)]\<rparr>))"

definition showCurrentPopup :: "sequence \<Rightarrow> js_error + sequence" where
  "showCurrentPopup s =
     (case js_nth (items s) (currentIndex s) of
        None \<Rightarrow> complete s
      | Some item \<Rightarrow>
          (let content =
                 (if item_type item = ''image''
                  then Img (item_content item) (js_or (item_alt item) ''Story image'')
                  else if item_type item = ''html'' then Html (item_content item)
                  else NoMarkup);
               continue =
                 (if currentIndex s < int (length (items s)) - 1 then ''Click to continue...''
                  else ''Click to begin reading...'')
           in case seq_container s of
                None \<Rightarrow> Inl TypeError
              | Some c \<Rightarrow>
                  Inr (s\<lparr>seq_container :=
                            Some (c\<lparr>box_inner := Some (content, continue), box_visible := True\<rparr>),
                          seq_trace := seq_trace s @ [Rendered (currentIndex s)]\<rparr>)))"

text \<open>\<^verbatim>\<open>next\<close>: animate out, and advance when the timer runs.\<close>

definition seq_next :: "sequence \<Rightarrow> js_error + sequence" where
  "seq_next s =
     (case seq_container s of
        None \<Rightarrow> Inl TypeError
      | Some c \<Rightarrow>
          Inr (s\<lparr>seq_container := Some (c\<lparr>box_visible := False\<rparr>),
                 seq_timers := seq_timers s @ [(seq_now s + 300, NextTimer)]\<rparr>))"

definition bindEvents :: "sequence \<Rightarrow> sequence" where
  "bindEvents s =
     s\<lparr>handlers := Some (seq_fresh s), seq_listeners := seq_listeners s @ [seq_fresh s],
       seq_fresh := seq_fresh s + 1\<rparr>"

definition unbindEvents :: "sequence \<Rightarrow> sequence" where
  "unbindEvents s =
     (case handlers s of
        None \<Rightarrow> s
      | Some h \<Rightarrow> s\<lparr>seq_listeners := removeAll h (seq_listeners s)\<rparr>)"

text \<open>\<^verbatim>\<open>init\<close>, which the page calls as \<^verbatim>\<open>PopupSystem.sequence.start\<close>.\<close>

definition init :: "seq_item list \<Rightarrow> nat option \<Rightarrow> sequence \<Rightarrow> js_error + sequence" where
  "init its cb s =
     (let s1 = s\<lparr>items := its, currentIndex := 0, onComplete := cb, isActive := True\<rparr>;
          s2 = createContainer s1;
          s3 = s2\<lparr>seq_page := showBackdrop (seq_page s2)\<rparr>
      in case showCurrentPopup s3 of
           Inl e \<Rightarrow> Inl e
         | Inr s4 \<Rightarrow> Inr (bindEvents s4))"

text \<open>The bodies of the two timer callbacks.\<close>

fun seq_fire :: "seq_timer \<Rightarrow> sequence \<Rightarrow> js_error + sequence" where
  "seq_fire NextTimer s =
     (let s1 = s\<lparr>currentIndex := currentIndex s + 1\<rparr>
      in if currentIndex s1 < int (length (items s1)) then showCurrentPopup s1 else complete s1)"
| "seq_fire CompleteTimer s =
     (case seq_container s of
        None \<Rightarrow> Inl TypeError
      | Some c \<Rightarrow>
          (let s1 = unbindEvents (s\<lparr>seq_container := Some (c\<lparr>box_attached := False\<rparr>)\<rparr>)
           in case onComplete s1 of
                None \<Rightarrow> Inr s1
              | Some cb \<Rightarrow> Inr (s1\<lparr>seq_trace := seq_trace s1 @ [Called cb]\<rparr>)))"

definition handleClick :: "sequence \<Rightarrow> js_error + sequence" where
  "handleClick s = (if isActive s then seq_next s else Inr s)"

definition handleKeydown :: "string \<Rightarrow> sequence \<Rightarrow> js_error + sequence" where
  "handleKeydown k s =
     (if isActive s \<and> (k = ''Enter'' \<or> k = '' '' \<or> k = ''Escape'') then seq_next s else Inr s)"

text \<open>
  An event reaches every registered listener in turn. An exception ends the modelled run: the
  theorems below show that none is raised.
\<close>

fun each_listener :: "('s \<Rightarrow> js_error + 's) \<Rightarrow> nat list \<Rightarrow> 's \<Rightarrow> js_error + 's" where
  "each_listener f [] s = Inr s"
| "each_listener f (h # hs) s =
     (case f s of Inl e \<Rightarrow> Inl e | Inr s' \<Rightarrow> each_listener f hs s')"

fun seq_step :: "event \<Rightarrow> sequence \<Rightarrow> js_error + sequence" where
  "seq_step Click s = each_listener handleClick (seq_listeners s) s"
| "seq_step (KeyDown k) s = each_listener (handleKeydown k) (seq_listeners s) s"
| "seq_step (Intersect es) s = Inr s"
| "seq_step (Elapse n) s = Inr (s\<lparr>seq_now := seq_now s + n\<rparr>)"
| "seq_step Tick s =
     (case earliest (seq_timers s) of
        None \<Rightarrow> Inr s
      | Some (d, t) \<Rightarrow>
          seq_fire t (s\<lparr>seq_timers := remove1 (d, t) (seq_timers s), seq_now := max (seq_now s) d\<rparr>))"

fun seq_run :: "event list \<Rightarrow> sequence \<Rightarrow> js_error + sequence" where
  "seq_run [] s = Inr s"
| "seq_run (e # es) s =
     (case seq_step e s of Inl err \<Rightarrow> Inl err | Inr s' \<Rightarrow> seq_run es s')"

text \<open>The indices rendered and the callbacks called, read off the trace.\<close>

fun renders :: "seq_log list \<Rightarrow> int list" where
  "renders [] = []"
| "renders (Rendered i # l) = i # renders l"
| "renders (Called c # l) = renders l"

fun calls :: "seq_log list \<Rightarrow> nat list" where
  "calls [] = []"
| "calls (Rendered i # l) = calls l"
| "calls (Called c # l) = c # calls l"

section \<open>Scenario B: system popups\<close>

text \<open>A trigger element, by the \<^verbatim>\<open>data-popup-*\<close> attributes the script reads and writes.\<close>

record marker =
  popupTriggered :: "string option"
  popupImage :: "string option"
  popupHtml :: "string option"
  popupGlitch :: "string option"

text \<open>The object pushed on the queue: \<^verbatim>\<open>{image, html, glitch}\<close>.\<close>

record descriptor =
  d_image :: "string option"
  d_html :: "string option"
  d_glitch :: bool

text \<open>
  A popup element created by \<^verbatim>\<open>showNextPopup\<close>: the \<^verbatim>\<open>glitch-enter\<close> class, the content,
  the \<^verbatim>\<open>is-visible\<close> class, and whether it is in the document.
\<close>

record popup_el =
  el_glitch :: bool
  el_content :: markup
  el_visible :: bool
  el_attached :: bool

datatype sys_timer = CloseTimer | ShowTimer

text \<open>
  \<open>elements\<close> holds every popup element created so far; \<open>currentPopup\<close> refers to one by its
  position. \<open>observer\<close> is \<open>None\<close> while there is no intersection observer, else the markers
  it observes. \<open>sys_bound\<close> says that \<^verbatim>\<open>bindEvents\<close> has registered the two listeners.
\<close>

record system =
  triggers :: "marker list"
  queue :: "descriptor list"
  currentPopup :: "nat option"
  isShowingPopup :: bool
  observer :: "nat list option"
  sys_bound :: bool
  elements :: "popup_el list"
  sys_page :: page
  sys_now :: nat
  sys_timers :: "(nat \<times> sys_timer) list"

definition SystemPopups0 :: system where
  "SystemPopups0 = \<lparr>triggers = [], queue = [], currentPopup = None, isShowingPopup = False,
     observer = None, sys_bound = False, elements = [], sys_page = page0, sys_now = 0,
     sys_timers = []\<rparr>"

text \<open>\<^verbatim>\<open>init\<close>, given the elements that \<^verbatim>\<open>querySelectorAll('[data-system-popup]')\<close> finds.\<close>

definition sys_init :: "marker list \<Rightarrow> system \<Rightarrow> system" where
  "sys_init ms s =
     (let s1 = s\<lparr>triggers := ms\<rparr>
      in if length (triggers s1) = 0 then s1
         else s1\<lparr>observer := Some [0..<length (triggers s1)], sys_bound := True\<rparr>)"

text \<open>The content of a popup: the image when there is one, else the HTML, else nothing.\<close>

definition popup_content :: "string option \<Rightarrow> string option \<Rightarrow> markup" where
  "popup_content img html =
     (if truthy img then Img (js_or img []) ''System notification''
      else if truthy html then Html (js_or html [])
      else NoMarkup)"

definition showNextPopup :: "system \<Rightarrow> system" where
  "showNextPopup s =
     (case queue s of
        [] \<Rightarrow> s\<lparr>isShowingPopup := False\<rparr>
      | popupData # rest \<Rightarrow>
          (let el = \<lparr>el_glitch = d_glitch popupData,
                      el_content = popup_content (d_image popupData) (d_html popupData),
                      el_visible = True, el_attached = True\<rparr>
           in s\<lparr>isShowingPopup := True, queue := rest,
                 currentPopup := Some (length (elements s)),
                 elements := elements s @ [el],
                 sys_page := showBackdrop (sys_page s)\<rparr>))"

text \<open>
  One entry of \<^verbatim>\<open>handleIntersection\<close>. The target is a marker of the page, by position: the
  observer reports only the elements it was given, which are the markers.
\<close>

definition handleEntry :: "nat \<times> bool \<Rightarrow> system \<Rightarrow> system" where
  "handleEntry entry s =
     (case entry of (target, isIntersecting) \<Rightarrow>
        if isIntersecting then
          (case js_nth (triggers s) (int target) of
             None \<Rightarrow> s
           | Some trigger \<Rightarrow>
               if truthy (popupTriggered trigger) then s
               else
                 let s1 = s\<lparr>triggers := (triggers s)[target := trigger\<lparr>popupTriggered := Some ''true''\<rparr>]\<rparr>;
                     s2 = s1\<lparr>queue := queue s1 @
                            [\<lparr>d_image = popupImage trigger, d_html = popupHtml trigger,
                              d_glitch = (popupGlitch trigger = Some ''true'')\<rparr>]\<rparr>;
                     s3 = (if \<not> isShowingPopup s2 then showNextPopup s2 else s2)
                 in s3\<lparr>observer := map_option (removeAll target) (observer s3)\<rparr>)
        else s)"

definition handleIntersection :: "(nat \<times> bool) list \<Rightarrow> system \<Rightarrow> system" where
  "handleIntersection entries s = fold handleEntry entries s"

definition closeCurrentPopup :: "system \<Rightarrow> system" where
  "closeCurrentPopup s =
     (case currentPopup s of
        None \<Rightarrow> s
      | Some p \<Rightarrow>
          s\<lparr>elements := (elements s)[p := (elements s ! p)\<lparr>el_visible := False\<rparr>],
            sys_page := hideBackdrop (sys_page s),
            sys_timers := sys_timers s @ [(sys_now s + 300, CloseTimer)]\<rparr>)"

text \<open>The bodies of the two timer callbacks of \<^verbatim>\<open>closeCurrentPopup\<close>.\<close>

fun sys_fire :: "sys_timer \<Rightarrow> system \<Rightarrow> system" where
  "sys_fire CloseTimer s =
     (let s1 = (case currentPopup s of
                  None \<Rightarrow> s
                | Some p \<Rightarrow>
                    s\<lparr>elements := (elements s)[p := (elements s ! p)\<lparr>el_attached := False\<rparr>],
                      currentPopup := None\<rparr>)
      in s1\<lparr>sys_timers := sys_timers s1 @ [(sys_now s1 + 200, ShowTimer)]\<rparr>)"
| "sys_fire ShowTimer s = showNextPopup s"

text \<open>\<^verbatim>\<open>reset\<close>: every marker loses its flag and is observed again; the queue is emptied.\<close>

definition reset :: "system \<Rightarrow> system" where
  "reset s =
     s\<lparr>triggers := map (\<lambda>t. t\<lparr>popupTriggered := None\<rparr>) (triggers s),
       observer := map_option (\<lambda>_. [0..<length (triggers s)]) (observer s),
       queue := []\<rparr>"

fun sys_step :: "event \<Rightarrow> system \<Rightarrow> system" where
  "sys_step Click s =
     (if sys_bound s \<and> isShowingPopup s \<and> currentPopup s \<noteq> None then closeCurrentPopup s else s)"
| "sys_step (KeyDown k) s =
     (if sys_bound s \<and> isShowingPopup s \<and> (k = ''Escape'' \<or> k = ''Enter'' \<or> k = '' '')
      then closeCurrentPopup s else s)"
| "sys_step (Intersect entries) s =
     (if observer s \<noteq> None then handleIntersection entries s else s)"
| "sys_step (Elapse n) s = s\<lparr>sys_now := sys_now s + n\<rparr>"
| "sys_step Tick s =
     (case earliest (sys_timers s) of
        None \<Rightarrow> s
      | Some (d, t) \<Rightarrow>
          sys_fire t (s\<lparr>sys_timers := remove1 (d, t) (sys_timers s), sys_now := max (sys_now s) d\<rparr>))"

definition sys_run :: "event list \<Rightarrow> system \<Rightarrow> system" where
  "sys_run evs s = fold sys_step evs s"

text \<open>The popups on screen: in the document and carrying \<^verbatim>\<open>is-visible\<close>.\<close>

definition visible_popups :: "system \<Rightarrow> popup_el list" where
  "visible_popups s = filter (\<lambda>e. el_attached e \<and> el_visible e) (elements s)"

text \<open>The popup element \<^verbatim>\<open>showNextPopup\<close> builds for a marker, as first shown.\<close>

definition marker_popup :: "marker \<Rightarrow> popup_el" where
  "marker_popup m =
     \<lparr>el_glitch = (popupGlitch m = Some ''true''),
      el_content = popup_content (popupImage m) (popupHtml m),
      el_visible = True, el_attached = True\<rparr>"

section \<open>Image gallery\<close>

text \<open>
  The gallery element as \<^verbatim>\<open>createGallery\<close> builds it and \<^verbatim>\<open>goToPage\<close> updates it: the title,
  "Page \<open>gal_label\<close> of \<open>gal_total\<close>", the image (source, and \<open>n\<close> of its "Page n" text), one
  \<^verbatim>\<open>is-active\<close> flag per dot, the \<^verbatim>\<open>disabled\<close> property of the two navigation buttons, and
  the \<^verbatim>\<open>is-visible\<close> class.
\<close>

record gallery_el =
  gal_title :: string
  gal_label :: int
  gal_total :: nat
  gal_src :: "string option"
  gal_alt :: int
  gal_dots :: "bool list"
  prev_disabled :: bool
  next_disabled :: bool
  gal_visible :: bool

text \<open>Callbacks the gallery hands to the browser: the animation frame of \<^verbatim>\<open>open\<close>, the timeout of \<^verbatim>\<open>close\<close>.\<close>

datatype gallery_task = ShowGallery | DestroyGallery

text \<open>
  \<open>keyHandler\<close> says that the gallery's \<^verbatim>\<open>keydown\<close> listener is registered on the document;
  \<open>gal_overflow\<close> is \<^verbatim>\<open>document.body.style.overflow\<close>.
\<close>

record gallery =
  container :: "gallery_el option"
  isOpen :: bool
  currentPage :: int
  images :: "string list"
  title :: string
  keyHandler :: bool
  gal_overflow :: string
  gal_warnings :: "string list"
  gal_tasks :: "gallery_task list"

definition ImageGallery0 :: gallery where
  "ImageGallery0 = \<lparr>container = None, isOpen = False, currentPage = 0, images = [], title = [],
     keyHandler = False, gal_overflow = [], gal_warnings = [], gal_tasks = []\<rparr>"

text \<open>The argument of \<^verbatim>\<open>open\<close>: \<^verbatim>\<open>{images, title}\<close>, either of which may be missing.\<close>

record gallery_options =
  opt_images :: "string list option"
  opt_title :: "string option"

definition updateNavState :: "gallery \<Rightarrow> js_error + gallery" where
  "updateNavState g =
     (case container g of
        None \<Rightarrow> Inl TypeError
      | Some c \<Rightarrow>
          Inr (g\<lparr>container := Some (c\<lparr>prev_disabled := (currentPage g = 0),
                                       next_disabled := (currentPage g = int (length (images g)) - 1)\<rparr>)\<rparr>))"

definition createGallery :: "gallery \<Rightarrow> js_error + gallery" where
  "createGallery g =
     updateNavState
       (g\<lparr>container := Some \<lparr>gal_title = title g, gal_label = 1, gal_total = length (images g),
            gal_src = js_nth (images g) 0, gal_alt = 1,
            gal_dots = map (\<lambda>i. i = 0) [0..<length (images g)],
            prev_disabled = False, next_disabled = False, gal_visible = False\<rparr>,
          keyHandler := True\<rparr>)"

definition gallery_open :: "gallery_options \<Rightarrow> gallery \<Rightarrow> js_error + gallery" where
  "gallery_open options g =
     (if isOpen g then Inr g
      else
        let g1 = g\<lparr>images := (case opt_images options of None \<Rightarrow> [] | Some xs \<Rightarrow> xs),
                   title := js_or (opt_title options) ''Gallery'',
                   currentPage := 0\<rparr>
        in if length (images g1) = 0
           then Inr (g1\<lparr>gal_warnings := gal_warnings g1 @ [''ImageGallery: No images provided'']\<rparr>)
           else
             (case createGallery g1 of
                Inl e \<Rightarrow> Inl e
              | Inr g2 \<Rightarrow>
                  Inr (g2\<lparr>isOpen := True, gal_overflow := ''hidden'',
                          gal_tasks := gal_tasks g2 @ [ShowGallery]\<rparr>)))"

definition goToPage :: "int \<Rightarrow> gallery \<Rightarrow> js_error + gallery" where
  "goToPage pageIndex g =
     (if pageIndex < 0 \<or> pageIndex \<ge> int (length (images g)) then Inr g
      else
        let g1 = g\<lparr>currentPage := pageIndex\<rparr>
        in case container g1 of
             None \<Rightarrow> Inl TypeError
           | Some c \<Rightarrow>
               updateNavState
                 (g1\<lparr>container :=
                       Some (c\<lparr>gal_src := js_nth (images g1) (currentPage g1),
                               gal_alt := currentPage g1 + 1,
                               gal_label := currentPage g1 + 1,
                               gal_dots := map (\<lambda>i. int i = currentPage g1) [0..<length (gal_dots c)]\<rparr>)\<rparr>))"


definition nextPage :: "gallery \<Rightarrow> js_error + gallery" where
  "nextPage g =
     (if currentPage g < int (length (images g)) - 1 then goToPage (currentPage g + 1) g else Inr g)"

definition gallery_close :: "gallery \<Rightarrow> js_error + gallery" where
  "gallery_close g =
     (if \<not> isOpen g then Inr g
      else
        let g1 = g\<lparr>isOpen := False, gal_overflow := [], keyHandler := False\<rparr>
        in case container g1 of
             None \<Rightarrow> Inl TypeError
           | Some c \<Rightarrow>
               Inr (g1\<lparr>container := Some (c\<lparr>gal_visible := False\<rparr>),
                       gal_tasks := gal_tasks g1 @ [DestroyGallery]\<rparr>))"

text \<open>The state in which the claims place the gallery: open, with its element, on a page it has.\<close>

definition gallery_ok :: "gallery \<Rightarrow> bool" where
  "gallery_ok g =
     (isOpen g \<and> 0 \<le> currentPage g \<and> currentPage g < int (length (images g)) \<and>
      (case container g of
         None \<Rightarrow> False
       | Some c \<Rightarrow>
           prev_disabled c = (currentPage g = 0) \<and>
           next_disabled c = (currentPage g = int (length (images g)) - 1)))"

section \<open>Schedules and states used in the statements\<close>

text \<open>Running one fallible step after another.\<close>

definition and_then :: "'e + 'a \<Rightarrow> ('a \<Rightarrow> 'e + 'b) \<Rightarrow> 'e + 'b" where
  "and_then r f = (case r of Inl e \<Rightarrow> Inl e | Inr x \<Rightarrow> f x)"

text \<open>The inputs on which the sequence presenter advances: a click, or Enter, Space or Escape.\<close>

fun advancing :: "event \<Rightarrow> bool" where
  "advancing Click = True"
| "advancing (KeyDown k) = (k = ''Enter'' \<or> k = '' '' \<or> k = ''Escape'')"
| "advancing _ = False"

definition advances :: "event list \<Rightarrow> nat" where
  "advances evs = length (filter advancing evs)"

text \<open>A presenter at rest: no timer pending and no listener registered.\<close>

definition seq_idle :: "sequence \<Rightarrow> bool" where
  "seq_idle s = (seq_timers s = [] \<and> seq_listeners s = [])"

text \<open>
  The three phases of a sequence over the items \<open>its\<close> with callback \<open>cb\<close>, started on the trace
  \<open>tr\<close>. Showing, after \<open>c\<close> advancing inputs: item \<open>i\<close> is the last rendered, and the inputs not
  yet acted on are the pending timers. Completing: every item was rendered and the final timer
  is pending. Completed: the callback has been called.
\<close>

definition showing :: "seq_item list \<Rightarrow> nat \<Rightarrow> seq_log list \<Rightarrow> nat \<Rightarrow> sequence \<Rightarrow> bool" where
  "showing its cb tr c s =
     (items s = its \<and> onComplete s = Some cb \<and> seq_container s \<noteq> None \<and> isActive s \<and>
      (\<exists>h. handlers s = Some h \<and> seq_listeners s = [h]) \<and>
      (\<exists>i. currentIndex s = int i \<and> i < length its \<and> i + length (seq_timers s) = c \<and>
           snd ` set (seq_timers s) \<subseteq> {NextTimer} \<and>
           seq_trace s = tr @ map (\<lambda>k. Rendered (int k)) [0..<Suc i]))"

definition completing :: "seq_item list \<Rightarrow> nat \<Rightarrow> seq_log list \<Rightarrow> sequence \<Rightarrow> bool" where
  "completing its cb tr s =
     (items s = its \<and> onComplete s = Some cb \<and> seq_container s \<noteq> None \<and> \<not> isActive s \<and>
      (\<exists>h. handlers s = Some h \<and> seq_listeners s = [h]) \<and>
      (\<exists>d. seq_timers s = [(d, CompleteTimer)]) \<and>
      seq_trace s = tr @ map (\<lambda>k. Rendered (int k)) [0..<length its])"

definition completed :: "seq_item list \<Rightarrow> nat \<Rightarrow> seq_log list \<Rightarrow> sequence \<Rightarrow> bool" where
  "completed its cb tr s =
     (items s = its \<and> \<not> isActive s \<and> seq_timers s = [] \<and> seq_listeners s = [] \<and>
      seq_trace s = tr @ map (\<lambda>k. Rendered (int k)) [0..<length its] @ [Called cb])"

definition seq_inv :: "seq_item list \<Rightarrow> nat \<Rightarrow> seq_log list \<Rightarrow> nat \<Rightarrow> sequence \<Rightarrow> bool" where
  "seq_inv its cb tr c s =
     (showing its cb tr c s \<or> (c = length its \<and> (completing its cb tr s \<or> completed its cb tr s)))"

text \<open>How many timers must still run before the sequence is completed.\<close>

definition seq_left :: "sequence \<Rightarrow> nat" where
  "seq_left s = (if isActive s then Suc (length (seq_timers s)) else length (seq_timers s))"

text \<open>The gallery of the specification's scenario: three pages, titled "Pamphlet".\<close>

definition pamphlet :: gallery_options where
  "pamphlet = \<lparr>opt_images = Some [''p1.png'', ''p2.png'', ''p3.png''], opt_title = Some ''Pamphlet''\<rparr>"

text \<open>The inputs on which a system popup is dismissed: a click, or Escape, Enter or Space.\<close>

fun dismissing :: "event \<Rightarrow> bool" where
  "dismissing Click = True"
| "dismissing (KeyDown k) = (k = ''Escape'' \<or> k = ''Enter'' \<or> k = '' '')"
| "dismissing _ = False"

text \<open>
  A schedule in which every dismissing input finds no timer pending: the two timers of one
  dismissal have run before the reader dismisses again.
\<close>

fun spaced :: "event list \<Rightarrow> system \<Rightarrow> bool" where
  "spaced [] s = True"
| "spaced (e # es) s = ((if dismissing e then sys_timers s = [] else True) \<and> spaced es (sys_step e s))"

text \<open>
  The state of a queue that shows one popup at a time: a popup in the document is the current
  one; nothing is current unless \<^verbatim>\<open>isShowingPopup\<close> is set; and at most one timer is pending,
  the closing one, or the showing one after the current popup was removed.
\<close>

definition one_at_a_time :: "system \<Rightarrow> bool" where
  "one_at_a_time s =
     ((\<forall>i < length (elements s). el_attached (elements s ! i) \<longrightarrow> currentPopup s = Some i) \<and>
      (\<not> isShowingPopup s \<longrightarrow> currentPopup s = None) \<and>
      (sys_timers s = [] \<or>
       (\<exists>d. sys_timers s = [(d, CloseTimer)]) \<and> isShowingPopup s \<or>
       (\<exists>d. sys_timers s = [(d, ShowTimer)]) \<and> isShowingPopup s \<and> currentPopup s = None))"

text \<open>
  What a popup presents (the glitch class and the content), for the popups created so far, for
  the descriptors waiting in the queue, and for a marker.
\<close>

definition shown :: "system \<Rightarrow> (bool \<times> markup) list" where
  "shown s = map (\<lambda>e. (el_glitch e, el_content e)) (elements s)"

definition waiting :: "system \<Rightarrow> (bool \<times> markup) list" where
  "waiting s = map (\<lambda>d. (d_glitch d, popup_content (d_image d) (d_html d))) (queue s)"

definition marker_view :: "marker \<Rightarrow> bool \<times> markup" where
  "marker_view m = (popupGlitch m = Some ''true'', popup_content (popupImage m) (popupHtml m))"

text \<open>
  The markers of a page \<open>ms\<close> in the order in which they are first reported as intersecting,
  continuing the order \<open>acc\<close>.
\<close>

fun arrive :: "marker list \<Rightarrow> (nat \<times> bool) list \<Rightarrow> nat list \<Rightarrow> nat list" where
  "arrive ms [] acc = acc"
| "arrive ms ((k, b) # es) acc =
     arrive ms es (if b \<and> k < length ms \<and> k \<notin> set acc then acc @ [k] else acc)"

fun arrivals :: "marker list \<Rightarrow> event list \<Rightarrow> nat list \<Rightarrow> nat list" where
  "arrivals ms [] acc = acc"
| "arrivals ms (Intersect es # evs) acc = arrivals ms evs (arrive ms es acc)"
| "arrivals ms (e # evs) acc = arrivals ms evs acc"

text \<open>
  The markers of \<open>ms\<close> whose flag is set in \<open>s\<close> are those of \<open>acc\<close>, and what was shown
  followed by what waits is what the markers of \<open>acc\<close> present, in this order.
\<close>

definition fifo_inv :: "marker list \<Rightarrow> nat list \<Rightarrow> system \<Rightarrow> bool" where
  "fifo_inv ms acc s =
     (length (triggers s) = length ms \<and> distinct acc \<and> (observer s = None \<longrightarrow> ms = []) \<and>
      (\<forall>k < length ms.
         truthy (popupTriggered (triggers s ! k)) = (k \<in> set acc) \<and>
         marker_view (triggers s ! k) = marker_view (ms ! k)) \<and>
      shown s @ waiting s = map (\<lambda>k. marker_view (ms ! k)) acc)"

text \<open>Two items for a sequence: an image and a paragraph.\<close>

definition intro_items :: "seq_item list" where
  "intro_items =
     [\<lparr>item_type = ''image'', item_content = ''intro.png'', item_alt = None\<rparr>,
      \<lparr>item_type = ''html'', item_content = ''<p>Chapter 1</p>'', item_alt = None\<rparr>]"

text \<open>A sequence of a single item.\<close>

definition cover_items :: "seq_item list" where
  "cover_items = [\<lparr>item_type = ''image'', item_content = ''cover.png'', item_alt = None\<rparr>]"

text \<open>Three markers of a page: an image, glitching HTML, an image.\<close>

definition three_markers :: "marker list" where
  "three_markers =
     [\<lparr>popupTriggered = None, popupImage = Some ''a.png'', popupHtml = None, popupGlitch = None\<rparr>,
      \<lparr>popupTriggered = None, popupImage = None, popupHtml = Some ''<b>B</b>'',
        popupGlitch = Some ''true''\<rparr>,
      \<lparr>popupTriggered = None, popupImage = Some ''c.png'', popupHtml = None, popupGlitch = None\<rparr>]"

section \<open>Preference store: theorems\<close>

lemma THEMES_mem: "''light'' \<in> set THEMES" "''dark'' \<in> set THEMES"
  by (simp_all add: THEMES_def)

lemma FONT_SIZES_mem:
  "''small'' \<in> set FONT_SIZES" "''normal'' \<in> set FONT_SIZES"
  "''large'' \<in> set FONT_SIZES" "''x-large'' \<in> set FONT_SIZES"
  by (simp_all add: FONT_SIZES_def)

lemma FONT_SIZES_nth:
  "FONT_SIZES ! 0 = ''small''" "FONT_SIZES ! 1 = ''normal''" "FONT_SIZES ! Suc 0 = ''normal''"
  "FONT_SIZES ! 2 = ''large''" "FONT_SIZES ! 3 = ''x-large''" "length FONT_SIZES = 4"
  "FONT_SIZES ! Suc (Suc 0) = ''large''" "FONT_SIZES ! Suc (Suc (Suc 0)) = ''x-large''"
  by (simp_all add: FONT_SIZES_def)

lemma root_theme_setTheme:
  "v \<in> set THEMES \<Longrightarrow> root_theme (setTheme v save s) = Some v"
  by (simp add: setTheme_def updateThemeButtons_def Let_def)

lemma root_font_size_setFontSize:
  "v \<in> set FONT_SIZES \<Longrightarrow> root_font_size (setFontSize v save s) = Some v"
  by (simp add: setFontSize_def updateFontSizeButtons_def Let_def)

lemma getTheme_setTheme:
  "v \<in> set THEMES \<Longrightarrow> getTheme (setTheme v save s) = v"
  by (auto simp: getTheme_def root_theme_setTheme js_or_def THEMES_def)

lemma getFontSize_setFontSize:
  "v \<in> set FONT_SIZES \<Longrightarrow> getFontSize (setFontSize v save s) = v"
  by (auto simp: getFontSize_def root_font_size_setFontSize js_or_def FONT_SIZES_def)

text \<open>
  C4. For every valid theme and every valid font size, whether or not the value is saved, the
  setter followed by the getter returns the value that was set, and the attribute of the
  document root (\<^verbatim>\<open>data-theme\<close>, \<^verbatim>\<open>data-font-size\<close>) holds it.
\<close>

theorem set_get_roundtrip:
  "(theme \<in> set THEMES \<longrightarrow>
      getTheme (setTheme theme save s) = theme \<and> root_theme (setTheme theme save s) = Some theme) \<and>
   (sz \<in> set FONT_SIZES \<longrightarrow>
      getFontSize (setFontSize sz save s) = sz \<and> root_font_size (setFontSize sz save s) = Some sz)"
  by (simp add: getTheme_setTheme getFontSize_setFontSize root_theme_setTheme
      root_font_size_setFontSize)

theorem set_get_roundtrip_witness:
  "''dark'' \<in> set THEMES \<and> getTheme (setTheme ''dark'' True settings0) = ''dark'' \<and>
   root_theme (setTheme ''dark'' True settings0) = Some ''dark'' \<and>
   ''x-large'' \<in> set FONT_SIZES \<and>
   getFontSize (setFontSize ''x-large'' True settings0) = ''x-large'' \<and>
   root_font_size (setFontSize ''x-large'' True settings0) = Some ''x-large''"
  using set_get_roundtrip [of "''dark''" True settings0 "''x-large''"]
  by (simp add: THEMES_def FONT_SIZES_def)

text \<open>
  C5. A value outside the enumeration changes nothing but the console: the state after
  \<^verbatim>\<open>setTheme\<close> (\<^verbatim>\<open>setFontSize\<close>) is the state before with one warning added, so the getter, the
  root attribute and the stored value are what they were. The setter returns normally: it has
  no branch that raises. (The argument is a string, as the script documents it.)
\<close>

theorem invalid_rejected:
  "(theme \<notin> set THEMES \<longrightarrow>
      setTheme theme save s = s\<lparr>warnings := warnings s @ [''Invalid theme: '' @ theme]\<rparr> \<and>
      getTheme (setTheme theme save s) = getTheme s \<and>
      root_theme (setTheme theme save s) = root_theme s \<and>
      storage (setTheme theme save s) = storage s) \<and>
   (sz \<notin> set FONT_SIZES \<longrightarrow>
      setFontSize sz save s = s\<lparr>warnings := warnings s @ [''Invalid font size: '' @ sz]\<rparr> \<and>
      getFontSize (setFontSize sz save s) = getFontSize s \<and>
      root_font_size (setFontSize sz save s) = root_font_size s \<and>
      storage (setFontSize sz save s) = storage s)"
  by (simp add: setTheme_def setFontSize_def getTheme_def getFontSize_def)

theorem invalid_rejected_witness:
  "''sepia'' \<notin> set THEMES \<and>
   setTheme ''sepia'' True (setTheme ''dark'' True settings0) =
     (setTheme ''dark'' True settings0)\<lparr>warnings := [''Invalid theme: sepia'']\<rparr> \<and>
   getTheme (setTheme ''sepia'' True (setTheme ''dark'' True settings0)) = ''dark'' \<and>
   storage (setTheme ''sepia'' True (setTheme ''dark'' True settings0)) STORAGE_KEYS_theme = Some ''dark'' \<and>
   ''huge'' \<notin> set FONT_SIZES \<and>
   getFontSize (setFontSize ''huge'' True (setFontSize ''large'' True settings0)) = ''large'' \<and>
   warnings (setFontSize ''huge'' True (setFontSize ''large'' True settings0)) =
     [''Invalid font size: huge'']"
  using invalid_rejected [of "''sepia''" True "setTheme ''dark'' True settings0" "''huge''"]
    invalid_rejected [of "''sepia''" True "setFontSize ''large'' True settings0" "''huge''"]
  by (simp add: THEMES_def FONT_SIZES_def setTheme_def setFontSize_def settings0_def
      updateThemeButtons_def updateFontSizeButtons_def getTheme_def getFontSize_def js_or_def)

lemma increase_cases:
  "getFontSize s = ''small'' \<Longrightarrow> increaseFontSize s = setFontSize ''normal'' True s"
  "getFontSize s = ''normal'' \<Longrightarrow> increaseFontSize s = setFontSize ''large'' True s"
  "getFontSize s = ''large'' \<Longrightarrow> increaseFontSize s = setFontSize ''x-large'' True s"
  "getFontSize s = ''x-large'' \<Longrightarrow> increaseFontSize s = s"
  by (simp_all add: increaseFontSize_def setFontSize_at_def js_nth_def FONT_SIZES_def)

lemma decrease_cases:
  "getFontSize s = ''small'' \<Longrightarrow> decreaseFontSize s = s"
  "getFontSize s = ''normal'' \<Longrightarrow> decreaseFontSize s = setFontSize ''small'' True s"
  "getFontSize s = ''large'' \<Longrightarrow> decreaseFontSize s = setFontSize ''normal'' True s"
  "getFontSize s = ''x-large'' \<Longrightarrow> decreaseFontSize s = setFontSize ''large'' True s"
  by (simp_all add: decreaseFontSize_def setFontSize_at_def js_nth_def FONT_SIZES_def)

lemma funpow_fixed: "f s = s \<Longrightarrow> (f ^^ n) s = s"
  by (induction n) simp_all

lemma FONT_SIZES_cases:
  "i < length FONT_SIZES \<Longrightarrow> i = 0 \<or> i = 1 \<or> i = 2 \<or> i = 3"
  by (auto simp: FONT_SIZES_def)

text \<open>
  C6. When the current font size (what \<^verbatim>\<open>getFontSize\<close> returns, which is "normal" while the
  attribute is unset) is the member at position \<open>i\<close> of the enumeration,
  \<^verbatim>\<open>increaseFontSize\<close> moves to position \<open>i + 1\<close>, or stays at the last position;
  \<^verbatim>\<open>decreaseFontSize\<close> moves to position \<open>i - 1\<close>, or stays at position \<open>0\<close> (the subtraction on
  \<open>nat\<close> stops at \<open>0\<close>). The result is a member of the enumeration, and at a boundary any number
  of calls leaves the whole state as it is.
\<close>

theorem font_size_stepping:
  assumes cur: "getFontSize s = FONT_SIZES ! i" and i: "i < length FONT_SIZES"
  shows "getFontSize (increaseFontSize s) = FONT_SIZES ! min (i + 1) (length FONT_SIZES - 1) \<and>
         getFontSize (decreaseFontSize s) = FONT_SIZES ! (i - 1) \<and>
         getFontSize (increaseFontSize s) \<in> set FONT_SIZES \<and>
         getFontSize (decreaseFontSize s) \<in> set FONT_SIZES \<and>
         (i = length FONT_SIZES - 1 \<longrightarrow> (increaseFontSize ^^ n) s = s) \<and>
         (i = 0 \<longrightarrow> (decreaseFontSize ^^ n) s = s)"
proof -
  consider "i = 0" | "i = 1" | "i = 2" | "i = 3"
    using FONT_SIZES_cases [OF i] by blast
  then show ?thesis
  proof cases
    case 1
    then have g: "getFontSize s = ''small''" using cur by (simp add: FONT_SIZES_nth)
    show ?thesis
      using 1 g by (simp add: increase_cases decrease_cases getFontSize_setFontSize
          FONT_SIZES_nth FONT_SIZES_mem funpow_fixed)
  next
    case 2
    then have g: "getFontSize s = ''normal''" using cur by (simp add: FONT_SIZES_nth)
    show ?thesis
      using 2 g by (simp add: increase_cases decrease_cases getFontSize_setFontSize
          FONT_SIZES_nth FONT_SIZES_mem)
  next
    case 3
    then have g: "getFontSize s = ''large''" using cur by (simp add: FONT_SIZES_nth)
    show ?thesis
      using 3 g by (simp add: increase_cases decrease_cases getFontSize_setFontSize
          FONT_SIZES_nth FONT_SIZES_mem)
  next
    case 4
    then have g: "getFontSize s = ''x-large''" using cur by (simp add: FONT_SIZES_nth)
    show ?thesis
      using 4 g by (simp add: increase_cases decrease_cases getFontSize_setFontSize
          FONT_SIZES_nth FONT_SIZES_mem funpow_fixed)
  qed
qed

theorem font_size_stepping_witness:
  "getFontSize (setFontSize ''x-large'' True settings0) = FONT_SIZES ! 3 \<and>
   (3::nat) < length FONT_SIZES \<and>
   getFontSize (increaseFontSize (setFontSize ''x-large'' True settings0)) = ''x-large'' \<and>
   getFontSize (decreaseFontSize (setFontSize ''x-large'' True settings0)) = ''large'' \<and>
   (increaseFontSize ^^ 5) (setFontSize ''x-large'' True settings0) =
     setFontSize ''x-large'' True settings0"
proof -
  have h1: "getFontSize (setFontSize ''x-large'' True settings0) = FONT_SIZES ! 3"
    by (simp add: getFontSize_setFontSize FONT_SIZES_mem FONT_SIZES_nth)
  have h2: "(3::nat) < length FONT_SIZES"
    by (simp add: FONT_SIZES_nth)
  show ?thesis
    using h1 h2 font_size_stepping [OF h1 h2, of 5] by (simp add: FONT_SIZES_nth)
qed

lemma storage_setTheme_nosave: "storage (setTheme v False s) = storage s"
  by (simp add: setTheme_def updateThemeButtons_def Let_def)

lemma storage_setFontSize_nosave: "storage (setFontSize v False s) = storage s"
  by (simp add: setFontSize_def updateFontSizeButtons_def Let_def)

lemma root_theme_setFontSize: "root_theme (setFontSize v b s) = root_theme s"
  by (simp add: setFontSize_def updateFontSizeButtons_def Let_def)

lemma storage_initSettings: "storage (initSettings pd s) = storage s"
  by (simp add: initSettings_def Let_def storage_setTheme_nosave storage_setFontSize_nosave
      split: option.split)

text \<open>
  C7. When the stored theme is absent or not a valid theme and the system prefers dark,
  \<^verbatim>\<open>getTheme\<close> is "dark" after \<^verbatim>\<open>initSettings\<close>; when the stored font size is absent or not
  valid, \<^verbatim>\<open>getFontSize\<close> is "normal"; and \<^verbatim>\<open>initSettings\<close> never writes to the storage.
\<close>

theorem init_fallback:
  "(storage s STORAGE_KEYS_theme \<notin> Some ` set THEMES \<longrightarrow>
      getTheme (initSettings True s) = ''dark'') \<and>
   (storage s STORAGE_KEYS_fontSize \<notin> Some ` set FONT_SIZES \<longrightarrow>
      getFontSize (initSettings prefersDark s) = ''normal'') \<and>
   storage (initSettings prefersDark s) = storage s"
proof -
  have dark: "''dark'' \<in> set THEMES" and normal: "''normal'' \<in> set FONT_SIZES"
    by (simp_all add: THEMES_def FONT_SIZES_def)
  have "getTheme (initSettings True s) = ''dark''"
    if "storage s STORAGE_KEYS_theme \<notin> Some ` set THEMES"
    using that
    by (auto simp: initSettings_def Let_def getTheme_def root_theme_setFontSize
        root_theme_setTheme [OF dark] js_or_def split: option.split)
  moreover have "getFontSize (initSettings prefersDark s) = ''normal''"
    if "storage s STORAGE_KEYS_fontSize \<notin> Some ` set FONT_SIZES"
    using that
    by (auto simp: initSettings_def Let_def storage_setTheme_nosave DEFAULT_FONT_SIZE_def
        getFontSize_setFontSize [OF normal] split: option.split)
  ultimately show ?thesis
    by (simp add: storage_initSettings)
qed

theorem init_fallback_witness:
  "storage (settings0\<lparr>storage := [STORAGE_KEYS_fontSize \<mapsto> ''huge'']\<rparr>) STORAGE_KEYS_theme
     \<notin> Some ` set THEMES \<and>
   storage (settings0\<lparr>storage := [STORAGE_KEYS_fontSize \<mapsto> ''huge'']\<rparr>) STORAGE_KEYS_fontSize
     \<notin> Some ` set FONT_SIZES \<and>
   getTheme (initSettings True (settings0\<lparr>storage := [STORAGE_KEYS_fontSize \<mapsto> ''huge'']\<rparr>)) = ''dark'' \<and>
   getFontSize (initSettings True (settings0\<lparr>storage := [STORAGE_KEYS_fontSize \<mapsto> ''huge'']\<rparr>)) = ''normal'' \<and>
   storage (initSettings True (settings0\<lparr>storage := [STORAGE_KEYS_fontSize \<mapsto> ''huge'']\<rparr>)) =
     [STORAGE_KEYS_fontSize \<mapsto> ''huge'']"
  using init_fallback [of "settings0\<lparr>storage := [STORAGE_KEYS_fontSize \<mapsto> ''huge'']\<rparr>" True]
  by (auto simp: STORAGE_KEYS_theme_def STORAGE_KEYS_fontSize_def FONT_SIZES_def THEMES_def)

text \<open>
  The current font size is a member of the enumeration once \<^verbatim>\<open>initSettings\<close> has run (the
  script runs it when it loads), and the setters keep it one.
\<close>

lemma preferences_valid_after_init:
  "getFontSize (initSettings prefersDark s) \<in> set FONT_SIZES \<and>
   getTheme (initSettings prefersDark s) \<in> set THEMES"
proof -
  define th where "th =
    (case storage s STORAGE_KEYS_theme of
       Some t \<Rightarrow> if truthy (Some t) \<and> t \<in> set THEMES then t
                 else if prefersDark then ''dark'' else ''light''
     | None \<Rightarrow> if prefersDark then ''dark'' else ''light'')"
  define fs where "fs =
    (case storage s STORAGE_KEYS_fontSize of
       Some f \<Rightarrow> if truthy (Some f) \<and> f \<in> set FONT_SIZES then f else ''normal''
     | None \<Rightarrow> ''normal'')"
  have th: "th \<in> set THEMES"
    by (simp add: th_def THEMES_mem split: option.split)
  have fs: "fs \<in> set FONT_SIZES"
    by (simp add: fs_def FONT_SIZES_mem split: option.split)
  have eq: "initSettings prefersDark s = setFontSize fs False (setTheme th False s)"
    by (simp add: initSettings_def Let_def storage_setTheme_nosave DEFAULT_FONT_SIZE_def
        th_def fs_def split: option.split)
  have "getTheme (setFontSize fs False (setTheme th False s)) = getTheme (setTheme th False s)"
    by (simp add: getTheme_def root_theme_setFontSize)
  with th fs show ?thesis
    by (simp add: eq getFontSize_setFontSize getTheme_setTheme)
qed

lemma font_size_stays_valid:
  assumes "getFontSize s \<in> set FONT_SIZES"
  shows "getFontSize (setFontSize v save s) \<in> set FONT_SIZES \<and>
         getFontSize (setTheme t save s) \<in> set FONT_SIZES"
proof -
  have "getFontSize (setFontSize v save s) \<in> set FONT_SIZES"
  proof (cases "v \<in> set FONT_SIZES")
    case True
    then show ?thesis by (simp add: getFontSize_setFontSize)
  next
    case False
    with assms show ?thesis by (simp add: setFontSize_def getFontSize_def)
  qed
  moreover have "getFontSize (setTheme t save s) = getFontSize s"
    by (simp add: getFontSize_def setTheme_def updateThemeButtons_def Let_def)
  ultimately show ?thesis using assms by simp
qed

text \<open>
  C9. From every state \<^verbatim>\<open>toggleTheme\<close> leaves a valid theme; when the root attribute is unset
  or is not a valid theme the result is "dark"; and from a valid theme two calls give back the
  theme \<^verbatim>\<open>getTheme\<close> reported at the start.
\<close>

theorem toggleTheme_total_involutive:
  "getTheme (toggleTheme s) \<in> set THEMES \<and>
   (root_theme s \<notin> Some ` set THEMES \<longrightarrow> getTheme (toggleTheme s) = ''dark'') \<and>
   (getTheme s \<in> set THEMES \<longrightarrow> getTheme (toggleTheme (toggleTheme s)) = getTheme s)"
proof -
  have dark: "''dark'' \<in> set THEMES" and light: "''light'' \<in> set THEMES"
    by (simp_all add: THEMES_def)
  have t: "toggleTheme s = (if getTheme s = ''dark'' then setTheme ''light'' True s
                            else setTheme ''dark'' True s)" for s
    by (simp add: toggleTheme_def getTheme_def Let_def)
  have 1: "getTheme (toggleTheme s) \<in> set THEMES"
    by (simp add: t getTheme_setTheme dark light)
  have 2: "getTheme (toggleTheme s) = ''dark''" if "root_theme s \<notin> Some ` set THEMES"
  proof -
    have "getTheme s \<noteq> ''dark''"
      using that
      by (auto simp: getTheme_def js_or_def DEFAULT_THEME_def THEMES_def split: option.splits)
    then show ?thesis by (simp add: t getTheme_setTheme dark)
  qed
  have 3: "getTheme (toggleTheme (toggleTheme s)) = getTheme s" if "getTheme s \<in> set THEMES"
  proof -
    from that consider "getTheme s = ''light''" | "getTheme s = ''dark''"
      by (auto simp: THEMES_def)
    then show ?thesis
      by cases (simp_all add: t [of s] t [of "setTheme v True s" for v] getTheme_setTheme dark light)
  qed
  from 1 2 3 show ?thesis by blast
qed

theorem toggleTheme_total_involutive_witness:
  "root_theme (settings0\<lparr>root_theme := Some ''sepia''\<rparr>) \<notin> Some ` set THEMES \<and>
   getTheme (toggleTheme (settings0\<lparr>root_theme := Some ''sepia''\<rparr>)) = ''dark'' \<and>
   getTheme (setTheme ''dark'' True settings0) \<in> set THEMES \<and>
   getTheme (toggleTheme (toggleTheme (setTheme ''dark'' True settings0))) = ''dark''"
  using toggleTheme_total_involutive [of "settings0\<lparr>root_theme := Some ''sepia''\<rparr>"]
    toggleTheme_total_involutive [of "setTheme ''dark'' True settings0"]
  by (auto simp: THEMES_def getTheme_setTheme)

section \<open>Image gallery: theorems\<close>





text \<open>\<^verbatim>\<open>open\<close> on a closed gallery with at least one image leaves an open gallery on page 0.\<close>

lemma gallery_open_ok:
  assumes "\<not> isOpen g" "opt_images options = Some xs" "xs \<noteq> []"
  shows "\<exists>g'. gallery_open options g = Inr g' \<and> gallery_ok g' \<and> images g' = xs \<and>
           currentPage g' = 0 \<and> title g' = js_or (opt_title options) ''Gallery''"
  using assms
  by (auto simp: gallery_open_def createGallery_def updateNavState_def gallery_ok_def Let_def)



text \<open>
  C8, as claimed, fails: \<^verbatim>\<open>open\<close> assigns \<^verbatim>\<open>images\<close>, \<^verbatim>\<open>title\<close> and \<^verbatim>\<open>currentPage\<close> before it
  looks at the length of the list. A gallery that showed page 3 of "Pamphlet" and was closed
  holds, after \<^verbatim>\<open>open({images: []})\<close>, no images, the title "Gallery" and page 0.
\<close>

theorem gallery_open_empty_counterexample:
  "map_sum id (\<lambda>g. (images g, title g, currentPage g))
     (and_then (and_then (and_then (gallery_open pamphlet ImageGallery0) nextPage) nextPage)
        gallery_close)
     = Inr ([''p1.png'', ''p2.png'', ''p3.png''], ''Pamphlet'', 2) \<and>
   map_sum id (\<lambda>g. (images g, title g, currentPage g))
     (and_then
        (and_then (and_then (and_then (gallery_open pamphlet ImageGallery0) nextPage) nextPage)
           gallery_close)
        (gallery_open \<lparr>opt_images = Some [], opt_title = None\<rparr>))
     = Inr ([], ''Gallery'', 0)"
  by (simp add: and_then_def gallery_open_def pamphlet_def ImageGallery0_def createGallery_def
      updateNavState_def js_or_def js_nth_def nextPage_def goToPage_def gallery_close_def Let_def)

text \<open>
  C8, amended. \<^verbatim>\<open>open\<close> on an open gallery returns the state unchanged. On a closed gallery,
  with an empty or missing image list, it returns normally with one warning logged and
  \<^verbatim>\<open>images\<close>, \<^verbatim>\<open>title\<close> and \<^verbatim>\<open>currentPage\<close> overwritten (no images, the given title or
  "Gallery", page 0); everything else is as before: no element is created, the gallery stays
  closed, the scrolling of the page, the key listener and the scheduled callbacks are
  untouched.
\<close>

theorem gallery_open_rejection:
  "(isOpen g \<longrightarrow> gallery_open options g = Inr g) \<and>
   (\<not> isOpen g \<and> (opt_images options = None \<or> opt_images options = Some []) \<longrightarrow>
      gallery_open options g =
        Inr (g\<lparr>images := [], title := js_or (opt_title options) ''Gallery'', currentPage := 0,
               gal_warnings := gal_warnings g @ [''ImageGallery: No images provided'']\<rparr>))"
  by (auto simp: gallery_open_def Let_def)

theorem gallery_open_rejection_witness:
  "\<not> isOpen ImageGallery0 \<and>
   opt_images \<lparr>opt_images = Some [], opt_title = Some ''Empty''\<rparr> = Some [] \<and>
   gallery_open \<lparr>opt_images = Some [], opt_title = Some ''Empty''\<rparr> ImageGallery0 =
     Inr (ImageGallery0\<lparr>title := ''Empty'',
            gal_warnings := [''ImageGallery: No images provided'']\<rparr>) \<and>
   map_sum id isOpen (gallery_open pamphlet ImageGallery0) = Inr True \<and>
   and_then (gallery_open pamphlet ImageGallery0)
     (gallery_open \<lparr>opt_images = Some [], opt_title = Some ''Empty''\<rparr>) =
     gallery_open pamphlet ImageGallery0"
proof -
  obtain g where g: "gallery_open pamphlet ImageGallery0 = Inr g" and o: "isOpen g"
    by (simp add: gallery_open_def pamphlet_def ImageGallery0_def createGallery_def
        updateNavState_def Let_def)
  show ?thesis
    using g o
      gallery_open_rejection [of g "\<lparr>opt_images = Some [], opt_title = Some ''Empty''\<rparr>"]
      gallery_open_rejection [of ImageGallery0 "\<lparr>opt_images = Some [], opt_title = Some ''Empty''\<rparr>"]
    by (simp add: and_then_def) (simp add: ImageGallery0_def js_or_def)
qed

section \<open>Sequence popups: theorems\<close>

lemma earliest_Nil: "earliest ts = None \<longleftrightarrow> ts = []"
  by (induction ts) (auto split: option.splits)

lemma earliest_mem: "earliest ts = Some t \<Longrightarrow> t \<in> set ts"
  by (induction ts arbitrary: t) (auto split: option.splits if_splits)

lemma length_remove1_mem: "x \<in> set xs \<Longrightarrow> Suc (length (remove1 x xs)) = length xs"
  by (induction xs) auto

lemma seq_run_append:
  "seq_run (xs @ ys) s = and_then (seq_run xs s) (seq_run ys)"
  by (induction xs arbitrary: s) (auto simp: and_then_def split: sum.splits)

lemma advances_Cons: "advances (e # evs) = (if advancing e then 1 else 0) + advances evs"
  by (simp add: advances_def)

lemma renders_append: "renders (xs @ ys) = renders xs @ renders ys"
  by (induction xs rule: renders.induct) simp_all

lemma calls_append: "calls (xs @ ys) = calls xs @ calls ys"
  by (induction xs rule: calls.induct) simp_all

lemma renders_Rendered: "renders (map (\<lambda>k. Rendered (int k)) ns) = map int ns"
  by (induction ns) simp_all

lemma calls_Rendered: "calls (map (\<lambda>k. Rendered (int k)) ns) = []"
  by (induction ns) simp_all

subsection \<open>Starting\<close>

lemma init_showing:
  assumes "seq_idle s" "its \<noteq> []"
  shows "\<exists>s'. init its (Some cb) s = Inr s' \<and> showing its cb (seq_trace s) 0 s'"
  using assms
  by (cases its)
    (auto simp: init_def seq_idle_def showing_def createContainer_def showCurrentPopup_def
      js_nth_def bindEvents_def Let_def)

lemma init_completing:
  assumes "seq_idle s"
  shows "\<exists>s'. init [] (Some cb) s = Inr s' \<and> completing [] cb (seq_trace s) s' \<and>
           seq_timers s' = [(seq_now s + 300, CompleteTimer)]"
  using assms
  by (auto simp: init_def seq_idle_def completing_def createContainer_def showCurrentPopup_def
      js_nth_def bindEvents_def complete_def Let_def)

subsection \<open>One event in each phase\<close>

lemma input_showing:
  assumes "showing its cb tr c s" "advancing e"
  shows "\<exists>s'. seq_step e s = Inr s' \<and> showing its cb tr (Suc c) s'"
  using assms
  by (cases e) (auto simp: showing_def handleClick_def handleKeydown_def seq_next_def)

lemma other_showing:
  assumes "showing its cb tr c s" "\<not> advancing e" "e \<noteq> Tick"
  shows "\<exists>s'. seq_step e s = Inr s' \<and> showing its cb tr c s'"
  using assms
  by (cases e) (auto simp: showing_def handleKeydown_def)

text \<open>
  A timer that runs while an item is showing is an advance: the next item is rendered, or,
  past the last item, the sequence starts completing. No other timer is then pending, since
  no more inputs were made than there are items.
\<close>

lemma tick_showing:
  assumes sh: "showing its cb tr c s" and ne: "seq_timers s \<noteq> []" and c: "c \<le> length its"
  shows "\<exists>s'. seq_step Tick s = Inr s' \<and> seq_inv its cb tr c s' \<and> Suc (seq_left s') = seq_left s"
proof -
  from sh obtain i box h where
    its: "items s = its" and cb: "onComplete s = Some cb" and box: "seq_container s = Some box"
    and act: "isActive s" and h: "handlers s = Some h" "seq_listeners s = [h]"
    and i: "currentIndex s = int i" "i < length its" "i + length (seq_timers s) = c"
    and ts: "snd ` set (seq_timers s) \<subseteq> {NextTimer}"
    and tr: "seq_trace s = tr @ map (\<lambda>k. Rendered (int k)) [0..<Suc i]"
    by (auto simp: showing_def)
  from ne obtain d t where e: "earliest (seq_timers s) = Some (d, t)"
    by (cases "earliest (seq_timers s)") (auto simp: earliest_Nil)
  then have mem: "(d, t) \<in> set (seq_timers s)" by (rule earliest_mem)
  with ts have t: "t = NextTimer" by auto
  let ?rest = "remove1 (d, t) (seq_timers s)"
  have len: "Suc (length ?rest) = length (seq_timers s)"
    using mem by (rule length_remove1_mem)
  have rest: "snd ` set ?rest \<subseteq> {NextTimer}"
    using ts set_remove1_subset [of "(d, t)" "seq_timers s"] by blast
  show ?thesis
  proof (cases "Suc i < length its")
    case True
    then have nth: "js_nth its (int i + 1) = Some (its ! Suc i)"
      by (simp add: js_nth_def nat_add_distrib)
    show ?thesis
      using True e t its cb box act h i rest tr len nth
      by (auto simp: seq_inv_def showing_def showCurrentPopup_def Let_def seq_left_def
          intro!: exI [of _ "Suc i"])
  next
    case False
    with i c len have last: "Suc i = length its" and "length ?rest = 0" and cN: "c = length its"
      by linarith+
    then have r: "?rest = []" by simp
    show ?thesis
      using False e t its cb box act h i tr last r cN len
      by (auto simp: seq_inv_def completing_def complete_def Let_def seq_left_def)
  qed
qed

lemma step_completing:
  assumes "completing its cb tr s" "e \<noteq> Tick"
  shows "\<exists>s'. seq_step e s = Inr s' \<and> completing its cb tr s'"
  using assms
  by (cases e) (auto simp: completing_def handleClick_def handleKeydown_def)

lemma tick_completing:
  assumes "completing its cb tr s"
  shows "\<exists>s'. seq_step Tick s = Inr s' \<and> completed its cb tr s'"
  using assms
  by (auto simp: completing_def completed_def unbindEvents_def)

lemma step_completed:
  assumes "completed its cb tr s"
  shows "\<exists>s'. seq_step e s = Inr s' \<and> completed its cb tr s'"
  using assms
  by (cases e) (auto simp: completed_def)

subsection \<open>Any schedule\<close>

lemma seq_inv_step:
  assumes inv: "seq_inv its cb tr c s"
    and c: "c + (if advancing e then 1 else 0) \<le> length its"
  shows "\<exists>s'. seq_step e s = Inr s' \<and> seq_inv its cb tr (c + (if advancing e then 1 else 0)) s'"
proof -
  consider (sh) "showing its cb tr c s"
    | (cg) "c = length its" "completing its cb tr s"
    | (cd) "c = length its" "completed its cb tr s"
    using inv by (auto simp: seq_inv_def)
  then show ?thesis
  proof cases
    case sh
    show ?thesis
    proof (cases "advancing e")
      case True
      with input_showing [OF sh True] show ?thesis by (auto simp: seq_inv_def)
    next
      case False
      show ?thesis
      proof (cases "e = Tick")
        case True
        show ?thesis
        proof (cases "seq_timers s = []")
          case True
          with sh \<open>e = Tick\<close> show ?thesis by (auto simp: seq_inv_def)
        next
          case ne: False
          from c have "c \<le> length its" by (simp split: if_splits)
          from tick_showing [OF sh ne this] \<open>e = Tick\<close> show ?thesis by auto
        qed
      next
        case nt: False
        from other_showing [OF sh False nt] False show ?thesis by (auto simp: seq_inv_def)
      qed
    qed
  next
    case cg
    show ?thesis
    proof (cases "e = Tick")
      case True
      with tick_completing [OF cg(2)] cg(1) show ?thesis by (auto simp: seq_inv_def)
    next
      case False
      with step_completing [OF cg(2) False] cg(1) c show ?thesis
        by (auto simp: seq_inv_def split: if_splits)
    qed
  next
    case cd
    with step_completed [OF cd(2), of e] c show ?thesis
      by (auto simp: seq_inv_def split: if_splits)
  qed
qed

lemma seq_inv_run:
  assumes "seq_inv its cb tr c s" "c + advances evs \<le> length its"
  shows "\<exists>s'. seq_run evs s = Inr s' \<and> seq_inv its cb tr (c + advances evs) s'"
  using assms
proof (induction evs arbitrary: c s)
  case Nil
  then show ?case by (simp add: advances_def)
next
  case (Cons e evs)
  let ?a = "if advancing e then 1 else 0 :: nat"
  from Cons.prems have c1: "c + ?a \<le> length its" and c2: "(c + ?a) + advances evs \<le> length its"
    by (simp_all add: advances_Cons)
  from seq_inv_step [OF Cons.prems(1) c1] obtain s1 where
    s1: "seq_step e s = Inr s1" "seq_inv its cb tr (c + ?a) s1" by blast
  from Cons.IH [OF s1(2) c2] obtain s' where
    "seq_run evs s1 = Inr s'" "seq_inv its cb tr (c + ?a + advances evs) s'" by blast
  with s1(1) show ?case by (auto simp: advances_Cons add.assoc)
qed

subsection \<open>Letting the timers run\<close>

lemma seq_left_0:
  assumes "seq_inv its cb tr (length its) s" "seq_left s = 0"
  shows "completed its cb tr s"
  using assms by (auto simp: seq_inv_def seq_left_def showing_def completing_def split: if_splits)

lemma seq_left_bound:
  assumes "seq_inv its cb tr c s"
  shows "seq_left s \<le> Suc c"
  using assms by (auto simp: seq_inv_def seq_left_def showing_def completing_def completed_def)

lemma ticks_finish:
  assumes "seq_inv its cb tr (length its) s" "seq_left s \<le> k"
  shows "\<exists>s'. seq_run (replicate k Tick) s = Inr s' \<and> completed its cb tr s'"
  using assms
proof (induction k arbitrary: s)
  case 0
  then show ?case by (simp add: seq_left_0)
next
  case (Suc k)
  consider (sh) "showing its cb tr (length its) s"
    | (cg) "completing its cb tr s" | (cd) "completed its cb tr s"
    using Suc.prems(1) by (auto simp: seq_inv_def)
  then have "\<exists>s1. seq_step Tick s = Inr s1 \<and> seq_inv its cb tr (length its) s1 \<and> seq_left s1 \<le> k"
  proof cases
    case sh
    then have ne: "seq_timers s \<noteq> []" by (auto simp: showing_def)
    from tick_showing [OF sh ne] Suc.prems(2) show ?thesis by auto
  next
    case cg
    from tick_completing [OF cg] obtain s1 where
      s1: "seq_step Tick s = Inr s1" "completed its cb tr s1" by blast
    then have "seq_left s1 = 0" by (simp add: completed_def seq_left_def)
    with s1 show ?thesis by (auto simp: seq_inv_def)
  next
    case cd
    from step_completed [OF cd, of Tick] obtain s1 where
      s1: "seq_step Tick s = Inr s1" "completed its cb tr s1" by blast
    then have "seq_left s1 = 0" by (simp add: completed_def seq_left_def)
    with s1 show ?thesis by (auto simp: seq_inv_def)
  qed
  then obtain s1 where s1: "seq_step Tick s = Inr s1" "seq_inv its cb tr (length its) s1"
    "seq_left s1 \<le> k" by blast
  from Suc.IH [OF s1(2,3)] s1(1) show ?case by auto
qed

subsection \<open>What the trace holds\<close>

lemma seq_inv_trace:
  assumes "seq_inv its cb tr c s" "its \<noteq> []"
  shows "\<exists>m. 0 < m \<and> m \<le> length its \<and> m \<le> Suc c \<and>
           renders (seq_trace s) = renders tr @ map int [0..<m] \<and>
           (calls (seq_trace s) = calls tr \<or>
            m = length its \<and> c = length its \<and> calls (seq_trace s) = calls tr @ [cb])"
proof -
  consider (sh) "showing its cb tr c s"
    | (cg) "c = length its" "completing its cb tr s"
    | (cd) "c = length its" "completed its cb tr s"
    using assms by (auto simp: seq_inv_def)
  then show ?thesis
  proof cases
    case sh
    then obtain i where "i < length its" "i \<le> c"
      "seq_trace s = tr @ map (\<lambda>k. Rendered (int k)) [0..<Suc i]"
      by (auto simp: showing_def)
    then show ?thesis
      by (intro exI [of _ "Suc i"]) (simp add: renders_append calls_append renders_Rendered
          calls_Rendered del: upt_Suc)
  next
    case cg
    then have "seq_trace s = tr @ map (\<lambda>k. Rendered (int k)) [0..<length its]"
      by (simp add: completing_def)
    with cg(1) assms(2) show ?thesis
      by (intro exI [of _ "length its"]) (simp add: renders_append calls_append renders_Rendered
          calls_Rendered)
  next
    case cd
    then have "seq_trace s = tr @ map (\<lambda>k. Rendered (int k)) [0..<length its] @ [Called cb]"
      by (simp add: completed_def)
    with cd(1) assms(2) show ?thesis
      by (intro exI [of _ "length its"]) (simp add: renders_append calls_append renders_Rendered
          calls_Rendered)
  qed
qed

lemma completed_trace:
  assumes "completed its cb tr s"
  shows "renders (seq_trace s) = renders tr @ map int [0..<length its] \<and>
         calls (seq_trace s) = calls tr @ [cb] \<and> \<not> isActive s \<and> seq_idle s"
  using assms
  by (simp add: completed_def seq_idle_def renders_append calls_append renders_Rendered
      calls_Rendered)

lemma completed_run:
  assumes "completed its cb tr s"
  shows "\<exists>s'. seq_run evs s = Inr s' \<and> completed its cb tr s'"
  using assms
proof (induction evs arbitrary: s)
  case Nil
  then show ?case by simp
next
  case (Cons e evs)
  from step_completed [OF Cons.prems, of e] obtain s1 where
    "seq_step e s = Inr s1" "completed its cb tr s1" by blast
  with Cons.IH [of s1] show ?case by auto
qed

lemma completing_run:
  assumes "completing its cb tr s"
  shows "\<exists>s'. seq_run evs s = Inr s' \<and>
           (if Tick \<in> set evs then completed its cb tr s' else completing its cb tr s')"
  using assms
proof (induction evs arbitrary: s)
  case Nil
  then show ?case by simp
next
  case (Cons e evs)
  show ?case
  proof (cases "e = Tick")
    case True
    from tick_completing [OF Cons.prems] obtain s1 where
      s1: "seq_step Tick s = Inr s1" "completed its cb tr s1" by blast
    with completed_run [OF s1(2), of evs] True show ?thesis by auto
  next
    case False
    from step_completing [OF Cons.prems False] obtain s1 where
      "seq_step e s = Inr s1" "completing its cb tr s1" by blast
    with Cons.IH [of s1] False show ?thesis by auto
  qed
qed

subsection \<open>Started at rest\<close>

text \<open>
  A presenter at rest (no timer pending, no listener registered: the initial state, or
  the state a completed sequence leaves) is started on \<open>N > 0\<close> items with a callback
  \<open>cb\<close>. Whatever then happens, in whatever order and however fast (clicks, keys, time passing,
  timers run), as long as at most \<open>N\<close> advancing inputs are made: no exception is raised; the
  items rendered are those of the indices \<open>0 .. m - 1\<close> in this order, once each, for some
  \<open>m\<close> with \<open>1 \<le> m \<le> N\<close> and \<open>m\<close> at most one more than the number of inputs; and
  the callback has not been called, or has been called exactly once, and then all \<open>N\<close>
  items were rendered and \<open>N\<close> inputs made. After the \<open>N\<close>-th input, once the pending timers
  have run (\<open>N + 1\<close> runs of the event loop's timer step are enough), exactly the \<open>N\<close> items
  have been rendered, the callback has been called exactly once, and the presenter is inactive
  and at rest.
\<close>

theorem sequence_completes_once:
  assumes idle: "seq_idle s0" and ne: "its \<noteq> []" and adv: "advances evs \<le> length its"
  shows "\<exists>s1 s'. init its (Some cb) s0 = Inr s1 \<and> seq_run evs s1 = Inr s' \<and>
           (\<exists>m. 0 < m \<and> m \<le> length its \<and> m \<le> Suc (advances evs) \<and>
                renders (seq_trace s') = renders (seq_trace s0) @ map int [0..<m] \<and>
                (calls (seq_trace s') = calls (seq_trace s0) \<or>
                 m = length its \<and> advances evs = length its \<and>
                 calls (seq_trace s') = calls (seq_trace s0) @ [cb])) \<and>
           (advances evs = length its \<longrightarrow>
              (\<exists>s''. seq_run (replicate (Suc (length its)) Tick) s' = Inr s'' \<and>
                 renders (seq_trace s'') = renders (seq_trace s0) @ map int [0..<length its] \<and>
                 calls (seq_trace s'') = calls (seq_trace s0) @ [cb] \<and>
                 \<not> isActive s'' \<and> seq_idle s''))"
proof -
  from init_showing [OF idle ne] obtain s1 where
    s1: "init its (Some cb) s0 = Inr s1" "showing its cb (seq_trace s0) 0 s1" by blast
  then have inv1: "seq_inv its cb (seq_trace s0) 0 s1" by (simp add: seq_inv_def)
  from seq_inv_run [OF inv1, of evs] adv obtain s' where
    s': "seq_run evs s1 = Inr s'" "seq_inv its cb (seq_trace s0) (advances evs) s'" by auto
  have fin: "\<exists>s''. seq_run (replicate (Suc (length its)) Tick) s' = Inr s'' \<and>
      renders (seq_trace s'') = renders (seq_trace s0) @ map int [0..<length its] \<and>
      calls (seq_trace s'') = calls (seq_trace s0) @ [cb] \<and> \<not> isActive s'' \<and> seq_idle s''"
    if full: "advances evs = length its"
  proof -
    from s'(2) full have inv: "seq_inv its cb (seq_trace s0) (length its) s'" by simp
    from seq_left_bound [OF inv] have "seq_left s' \<le> Suc (length its)" .
    from ticks_finish [OF inv this] completed_trace show ?thesis by blast
  qed
  from seq_inv_trace [OF s'(2) ne] s1(1) s'(1) fin show ?thesis by blast
qed

text \<open>
  An instance: two items, a click, the timer, Enter, 50 ms, the timer, and then the three
  further timer runs of the theorem: items 0 and 1 rendered, callback 7 called once.
\<close>

theorem sequence_completes_once_example:
  "seq_idle SequencePopups0 \<and> intro_items \<noteq> [] \<and>
   advances [Click, Tick, KeyDown ''Enter'', Elapse 50, Tick] = length intro_items \<and>
   map_sum id (\<lambda>s. (renders (seq_trace s), calls (seq_trace s), isActive s))
     (and_then (init intro_items (Some 7) SequencePopups0)
        (seq_run ([Click, Tick, KeyDown ''Enter'', Elapse 50, Tick] @ replicate 3 Tick)))
     = Inr ([0, 1], [7], False)"
proof -
  let ?evs = "[Click, Tick, KeyDown ''Enter'', Elapse 50, Tick]"
  have h1: "seq_idle SequencePopups0"
    by (simp add: seq_idle_def SequencePopups0_def)
  have h2: "intro_items \<noteq> []"
    by (simp add: intro_items_def)
  have h3: "advances ?evs = length intro_items"
    by (simp add: advances_def intro_items_def)
  then have h3': "advances ?evs \<le> length intro_items" by simp
  have len: "Suc (length intro_items) = 3" "map int [0..<length intro_items] = [0, 1]"
    by (simp_all add: intro_items_def)
  have tr: "seq_trace SequencePopups0 = []"
    by (simp add: SequencePopups0_def)
  from sequence_completes_once [OF h1 h2 h3', of 7] h3 obtain s1 s' s'' where
    s1: "init intro_items (Some 7) SequencePopups0 = Inr s1" and s': "seq_run ?evs s1 = Inr s'"
    and s'': "seq_run (replicate (Suc (length intro_items)) Tick) s' = Inr s''"
    and r: "renders (seq_trace s'') = renders (seq_trace SequencePopups0) @ map int [0..<length intro_items]"
    and c: "calls (seq_trace s'') = calls (seq_trace SequencePopups0) @ [7]" and a: "\<not> isActive s''"
    by blast
  from s'' have run3: "seq_run (replicate 3 Tick) s' = Inr s''"
    by (simp only: len)
  have "seq_run (?evs @ replicate 3 Tick) s1 = Inr s''"
    by (simp only: seq_run_append and_then_def s' run3 sum.case)
  then have "and_then (init intro_items (Some 7) SequencePopups0)
      (seq_run (?evs @ replicate 3 Tick)) = Inr s''"
    by (simp only: s1 and_then_def sum.case)
  moreover have "renders (seq_trace s'') = [0, 1]" "calls (seq_trace s'') = [7]"
    using r c by (simp_all only: len tr renders.simps calls.simps append_Nil)
  ultimately show ?thesis
    using h1 h2 h3 a by simp
qed

text \<open>
  The empty list: a presenter at rest started on the empty list with a callback \<open>cb\<close> returns normally,
  already inactive, with the completion timer pending, due 300 ms later. Whatever happens
  next, no exception is raised, the presenter stays inactive, nothing is rendered, and the
  callback has been called exactly once if the timer has run, and not at all before.
\<close>

theorem empty_sequence_completes:
  assumes idle: "seq_idle s0"
  shows "\<exists>s1. init [] (Some cb) s0 = Inr s1 \<and> \<not> isActive s1 \<and>
           seq_timers s1 = [(seq_now s0 + 300, CompleteTimer)] \<and>
           (\<forall>evs. \<exists>s'. seq_run evs s1 = Inr s' \<and> \<not> isActive s' \<and>
              renders (seq_trace s') = renders (seq_trace s0) \<and>
              calls (seq_trace s') =
                calls (seq_trace s0) @ (if Tick \<in> set evs then [cb] else []))"
proof -
  from init_completing [OF idle] obtain s1 where
    s1: "init [] (Some cb) s0 = Inr s1" "completing [] cb (seq_trace s0) s1"
    "seq_timers s1 = [(seq_now s0 + 300, CompleteTimer)]" by blast
  have "\<exists>s'. seq_run evs s1 = Inr s' \<and> \<not> isActive s' \<and>
              renders (seq_trace s') = renders (seq_trace s0) \<and>
              calls (seq_trace s') =
                calls (seq_trace s0) @ (if Tick \<in> set evs then [cb] else [])" for evs
    using completing_run [OF s1(2), of evs]
    by (auto simp: completing_def completed_def renders_append calls_append split: if_splits)
  with s1 show ?thesis by (auto simp: completing_def)
qed

theorem empty_sequence_completes_example:
  "seq_idle SequencePopups0 \<and>
   map_sum id (\<lambda>s. (renders (seq_trace s), calls (seq_trace s), isActive s))
     (and_then (init [] (Some 7) SequencePopups0) (seq_run [Click, Elapse 300]))
     = Inr ([], [], False) \<and>
   map_sum id (\<lambda>s. (renders (seq_trace s), calls (seq_trace s), isActive s))
     (and_then (init [] (Some 7) SequencePopups0) (seq_run [Click, Elapse 300, Tick, Click]))
     = Inr ([], [7], False)"
proof -
  have h: "seq_idle SequencePopups0"
    by (simp add: seq_idle_def SequencePopups0_def)
  from empty_sequence_completes [OF h, of 7] obtain s1 where
    s1: "init [] (Some 7) SequencePopups0 = Inr s1"
    and run: "\<And>evs. \<exists>s'. seq_run evs s1 = Inr s' \<and> \<not> isActive s' \<and>
              renders (seq_trace s') = renders (seq_trace SequencePopups0) \<and>
              calls (seq_trace s') =
                calls (seq_trace SequencePopups0) @ (if Tick \<in> set evs then [7] else [])"
    by blast
  have tr: "seq_trace SequencePopups0 = []"
    by (simp add: SequencePopups0_def)
  from run [of "[Click, Elapse 300]"] run [of "[Click, Elapse 300, Tick, Click]"] s1 tr h
  show ?thesis
    by (auto simp: and_then_def)
qed

subsection \<open>Started over an unfinished sequence\<close>

text \<open>
  C2 fails on the code. \<^verbatim>\<open>start\<close> is public, and \<^verbatim>\<open>createContainer\<close> expects to find the
  container of an earlier sequence ("Remove existing container if any"); but \<^verbatim>\<open>init\<close> neither
  cancels the pending timers of that sequence nor unbinds its listeners, which \<^verbatim>\<open>complete\<close>
  does through \<^verbatim>\<open>unbindEvents\<close>. A sequence of one item is started with callback 1 and
  advanced by a click; its timer runs and the completion timer is pending. A sequence of two
  items is now started with callback 2. The stale completion timer runs: it removes the new
  container, unbinds the new listeners and calls callback 2, before any advance and with one
  of the two items rendered. The listener of the first sequence, still registered, then
  advances the second one: after its two advances callback 2 is called a second time.
\<close>

theorem restart_calls_back_early:
  "map_sum id (\<lambda>s. (renders (seq_trace s), calls (seq_trace s), isActive s))
     (and_then
        (and_then (and_then (init cover_items (Some 1) SequencePopups0) (seq_run [Click, Tick]))
           (init intro_items (Some 2)))
        (seq_run [Tick]))
     = Inr ([0, 0], [2], True) \<and>
   map_sum id (\<lambda>s. (renders (seq_trace s), calls (seq_trace s), isActive s))
     (and_then
        (and_then (and_then (init cover_items (Some 1) SequencePopups0) (seq_run [Click, Tick]))
           (init intro_items (Some 2)))
        (seq_run [Tick, Click, Tick, Click, Tick, Tick]))
     = Inr ([0, 0, 1], [2, 2], False)"
  by (simp add: and_then_def init_def createContainer_def showCurrentPopup_def js_nth_def js_or_def
      bindEvents_def unbindEvents_def complete_def seq_next_def handleClick_def
      SequencePopups0_def intro_items_def cover_items_def showBackdrop_def hideBackdrop_def
      page0_def Let_def)

text \<open>
  C10 fails on the code, by the same defect: \<^verbatim>\<open>init\<close> leaves the timers of the sequence it
  replaces pending. A sequence of two items is started with callback 1 and the reader clicks;
  before the timer of this click runs, the empty list is started with callback 2. \<^verbatim>\<open>init\<close>
  calls \<^verbatim>\<open>complete\<close>, which schedules the completion timer; the stale timer of the click then
  runs, finds the index past the end of the empty list and calls \<^verbatim>\<open>complete\<close> again. Both
  completion timers run, and callback 2 is called twice.
\<close>

theorem restart_on_empty_list_calls_back_twice:
  "map_sum id (\<lambda>s. (calls (seq_trace s), isActive s, seq_timers s))
     (and_then (and_then (init intro_items (Some 1) SequencePopups0) (seq_run [Click]))
        (init [] (Some 2)))
     = Inr ([], False, [(300, NextTimer), (300, CompleteTimer)]) \<and>
   map_sum id (\<lambda>s. (calls (seq_trace s), isActive s, seq_timers s))
     (and_then
        (and_then (and_then (init intro_items (Some 1) SequencePopups0) (seq_run [Click]))
           (init [] (Some 2)))
        (seq_run [Tick, Tick, Tick]))
     = Inr ([2, 2], False, [])"
  by (simp add: and_then_def init_def createContainer_def showCurrentPopup_def js_nth_def js_or_def
      bindEvents_def unbindEvents_def complete_def seq_next_def handleClick_def
      SequencePopups0_def intro_items_def showBackdrop_def hideBackdrop_def page0_def Let_def)

section \<open>System popups: theorems\<close>

text \<open>A marker whose flag is set is ignored, whatever else the state holds.\<close>

lemma consumed_marker_ignored:
  assumes "target < length (triggers s)" "truthy (popupTriggered (triggers s ! target))"
  shows "handleEntry (target, b) s = s"
  using assms by (simp add: handleEntry_def js_nth_def)

text \<open>A marker that is not intersecting is ignored as well.\<close>

lemma leaving_marker_ignored: "handleEntry (target, False) s = s"
  by (simp add: handleEntry_def)

text \<open>
  C1 fails on the code. Three markers enter the band before any dismissal: the first popup is
  shown and two descriptors wait. The reader then clicks twice within the 300 ms of the exit
  animation. Both clicks pass the guard of the click listener (\<^verbatim>\<open>isShowingPopup\<close> is set
  and \<^verbatim>\<open>currentPopup\<close> is still the closing element), so \<^verbatim>\<open>closeCurrentPopup\<close> starts its
  two timers twice; the second \<^verbatim>\<open>showNextPopup\<close> then shows the third popup over the second
  one: two popups are on screen, and the second, no longer referenced, stays there.
\<close>

theorem double_click_shows_two_popups:
  "visible_popups
     (sys_run [Intersect [(0, True)], Intersect [(1, True)], Intersect [(2, True)]]
        (sys_init three_markers SystemPopups0))
     = [marker_popup (three_markers ! 0)] \<and>
   queue
     (sys_run [Intersect [(0, True)], Intersect [(1, True)], Intersect [(2, True)]]
        (sys_init three_markers SystemPopups0))
     = [\<lparr>d_image = None, d_html = Some ''<b>B</b>'', d_glitch = True\<rparr>,
        \<lparr>d_image = Some ''c.png'', d_html = None, d_glitch = False\<rparr>] \<and>
   visible_popups
     (sys_run [Intersect [(0, True)], Intersect [(1, True)], Intersect [(2, True)],
               Click, Elapse 100, Click, Tick, Tick, Tick, Tick]
        (sys_init three_markers SystemPopups0))
     = [marker_popup (three_markers ! 1), marker_popup (three_markers ! 2)] \<and>
   sys_now
     (sys_run [Intersect [(0, True)], Intersect [(1, True)], Intersect [(2, True)],
               Click, Elapse 100, Click, Tick, Tick, Tick, Tick]
        (sys_init three_markers SystemPopups0))
     = 600"
  by (simp add: sys_run_def sys_init_def SystemPopups0_def three_markers_def handleIntersection_def
      handleEntry_def js_nth_def truthy_def showNextPopup_def popup_content_def js_or_def
      closeCurrentPopup_def visible_popups_def marker_popup_def showBackdrop_def hideBackdrop_def
      page0_def Let_def)

subsection \<open>Arrival order\<close>

lemma map_list_update_same:
  assumes "\<And>x. f (g x) = f x"
  shows "map f (xs[p := g (xs ! p)]) = map f xs"
  by (induction xs arbitrary: p) (simp_all add: assms split: nat.split)

lemma shown_waiting_showNextPopup:
  "shown (showNextPopup s) @ waiting (showNextPopup s) = shown s @ waiting s"
  by (simp add: showNextPopup_def shown_def waiting_def Let_def split: list.split)

lemma shown_closeCurrentPopup:
  "shown (closeCurrentPopup s) = shown s \<and> waiting (closeCurrentPopup s) = waiting s \<and>
   triggers (closeCurrentPopup s) = triggers s"
  by (simp add: closeCurrentPopup_def shown_def waiting_def map_list_update_same
      split: option.split)

lemma shown_sys_fire:
  "shown (sys_fire t s) @ waiting (sys_fire t s) = shown s @ waiting s \<and>
   triggers (sys_fire t s) = triggers s"
proof (cases t)
  case CloseTimer
  then show ?thesis
    by (simp add: shown_def waiting_def map_list_update_same Let_def split: option.split)
next
  case ShowTimer
  then show ?thesis
    by (simp add: shown_waiting_showNextPopup) (simp add: showNextPopup_def Let_def split: list.split)
qed

lemma triggers_showNextPopup: "triggers (showNextPopup s) = triggers s"
  by (simp add: showNextPopup_def Let_def split: list.split)

lemma fifo_inv_handleEntry:
  assumes inv: "fifo_inv ms acc s"
  shows "fifo_inv ms (arrive ms [e] acc) (handleEntry e s)"
proof (cases e)
  case (Pair k b)
  show ?thesis
  proof (cases "b \<and> k < length ms \<and> k \<notin> set acc")
    case False
    then have "handleEntry e s = s"
      using inv Pair by (auto simp: handleEntry_def fifo_inv_def js_nth_def)
    with False inv Pair show ?thesis by auto
  next
    case True
    define t where "t = triggers s ! k"
    define s2 where "s2 = s\<lparr>triggers := (triggers s)[k := t\<lparr>popupTriggered := Some ''true''\<rparr>],
                 queue := queue s @ [\<lparr>d_image = popupImage t, d_html = popupHtml t,
                                      d_glitch = (popupGlitch t = Some ''true'')\<rparr>]\<rparr>"
    define s3 where "s3 = (if \<not> isShowingPopup s2 then showNextPopup s2 else s2)"
    from True inv have k: "k < length (triggers s)" and fresh: "\<not> truthy (popupTriggered t)"
      and view: "marker_view t = marker_view (ms ! k)"
      by (auto simp: fifo_inv_def t_def)
    have step: "handleEntry e s = s3\<lparr>observer := map_option (removeAll k) (observer s3)\<rparr>"
      using Pair True k fresh
      by (simp add: handleEntry_def js_nth_def Let_def s3_def s2_def t_def)
    have tr3: "triggers s3 = (triggers s)[k := t\<lparr>popupTriggered := Some ''true''\<rparr>]"
      by (simp add: s3_def triggers_showNextPopup) (simp add: s2_def)
    have "shown s3 @ waiting s3 = shown s2 @ waiting s2"
      by (simp add: s3_def shown_waiting_showNextPopup)
    also have "\<dots> = (shown s @ waiting s) @ [marker_view t]"
      by (simp add: shown_def waiting_def marker_view_def s2_def)
    finally have sw: "shown s3 @ waiting s3 = map (\<lambda>k. marker_view (ms ! k)) (acc @ [k])"
      using inv view by (simp add: fifo_inv_def)
    have flags: "truthy (popupTriggered (triggers s3 ! j)) = (j \<in> set (acc @ [k])) \<and>
        marker_view (triggers s3 ! j) = marker_view (ms ! j)" if "j < length ms" for j
    proof (cases "j = k")
      case True
      with k view show ?thesis
        by (simp add: tr3 truthy_def marker_view_def)
    next
      case False
      with that inv show ?thesis
        by (simp add: tr3 fifo_inv_def)
    qed
    have ob: "observer s3 = observer s"
      by (simp add: s3_def s2_def showNextPopup_def Let_def split: list.split)
    have "fifo_inv ms (acc @ [k]) (s3\<lparr>observer := map_option (removeAll k) (observer s3)\<rparr>)"
      unfolding fifo_inv_def
      using inv True sw flags
      by (simp add: tr3 ob shown_def waiting_def fifo_inv_def)
    with step True Pair show ?thesis by simp
  qed
qed

lemma arrive_append: "arrive ms (es @ fs) acc = arrive ms fs (arrive ms es acc)"
  by (induction es arbitrary: acc) auto

lemma fifo_inv_handleIntersection:
  assumes "fifo_inv ms acc s"
  shows "fifo_inv ms (arrive ms es acc) (handleIntersection es s)"
  using assms
proof (induction es arbitrary: acc s)
  case Nil
  then show ?case by (simp add: handleIntersection_def)
next
  case (Cons e es)
  from fifo_inv_handleEntry [OF Cons.prems, of e]
  have "fifo_inv ms (arrive ms [e] acc) (handleEntry e s)" .
  from Cons.IH [OF this] show ?case
    using arrive_append [of ms "[e]" es acc] by (simp add: handleIntersection_def)
qed

lemma arrivals_append: "arrivals ms (xs @ ys) acc = arrivals ms ys (arrivals ms xs acc)"
  by (induction ms xs acc rule: arrivals.induct) simp_all

lemma fifo_inv_cong:
  assumes "fifo_inv ms acc s" "triggers s' = triggers s" "observer s' = observer s"
    "shown s' @ waiting s' = shown s @ waiting s"
  shows "fifo_inv ms acc s'"
  using assms by (simp add: fifo_inv_def)

lemma fifo_inv_step:
  assumes inv: "fifo_inv ms acc s"
  shows "fifo_inv ms (arrivals ms [e] acc) (sys_step e s)"
proof (cases e)
  case Click
  with inv shown_closeCurrentPopup [of s] show ?thesis
    by (auto intro!: fifo_inv_cong [OF inv] simp: closeCurrentPopup_def split: option.split)
next
  case (KeyDown k)
  with inv shown_closeCurrentPopup [of s] show ?thesis
    by (auto intro!: fifo_inv_cong [OF inv] simp: closeCurrentPopup_def split: option.split)
next
  case (Intersect es)
  show ?thesis
  proof (cases "observer s = None")
    case True
    with inv have "ms = []" by (simp add: fifo_inv_def)
    then have "arrive ms es acc = acc" by (induction es arbitrary: acc) auto
    with True inv Intersect show ?thesis by simp
  next
    case False
    with Intersect fifo_inv_handleIntersection [OF inv, of es] show ?thesis by simp
  qed
next
  case (Elapse n)
  with inv show ?thesis
    by (auto intro!: fifo_inv_cong [OF inv] simp: shown_def waiting_def)
next
  case Tick
  show ?thesis
  proof (cases "earliest (sys_timers s)")
    case None
    with Tick inv show ?thesis by simp
  next
    case (Some dt)
    obtain d t where dt: "dt = (d, t)" by (cases dt)
    let ?s = "s\<lparr>sys_timers := remove1 (d, t) (sys_timers s), sys_now := max (sys_now s) d\<rparr>"
    have "fifo_inv ms acc (sys_fire t ?s)"
    proof (rule fifo_inv_cong [OF inv])
      show "triggers (sys_fire t ?s) = triggers s"
        using shown_sys_fire [of t ?s] by simp
      show "observer (sys_fire t ?s) = observer s"
        by (cases t) (simp_all add: showNextPopup_def Let_def split: option.split list.split)
      show "shown (sys_fire t ?s) @ waiting (sys_fire t ?s) = shown s @ waiting s"
        using shown_sys_fire [of t ?s] by (simp add: shown_def waiting_def)
    qed
    with Tick Some dt show ?thesis by simp
  qed
qed

lemma fifo_inv_run:
  assumes "fifo_inv ms acc s"
  shows "fifo_inv ms (arrivals ms evs acc) (sys_run evs s)"
  using assms
proof (induction evs arbitrary: acc s)
  case Nil
  then show ?case by (simp add: sys_run_def)
next
  case (Cons e evs)
  from fifo_inv_step [OF Cons.prems, of e] have "fifo_inv ms (arrivals ms [e] acc) (sys_step e s)" .
  from Cons.IH [OF this] show ?case
    using arrivals_append [of ms "[e]" evs acc] by (simp add: sys_run_def)
qed

lemma fifo_inv_init:
  assumes "\<forall>m \<in> set ms. \<not> truthy (popupTriggered m)"
  shows "fifo_inv ms [] (sys_init ms SystemPopups0)"
  using assms
  by (auto simp: fifo_inv_def sys_init_def SystemPopups0_def shown_def waiting_def Let_def)

text \<open>
  On a page whose markers carry no flag yet, whatever happens and however fast: the popups
  created so far, followed by the descriptors still waiting, present the markers in the order
  in which they first entered the band, each marker once.
\<close>

theorem popups_in_arrival_order:
  assumes "\<forall>m \<in> set ms. \<not> truthy (popupTriggered m)"
  shows "shown (sys_run evs (sys_init ms SystemPopups0)) @
         waiting (sys_run evs (sys_init ms SystemPopups0)) =
           map (\<lambda>k. marker_view (ms ! k)) (arrivals ms evs []) \<and>
         distinct (arrivals ms evs [])"
  using fifo_inv_run [OF fifo_inv_init [OF assms], of evs]
  by (simp add: fifo_inv_def)
subsection \<open>One popup at a time, when dismissals are spaced\<close>

lemma oat_init: "one_at_a_time (sys_init ms SystemPopups0)"
  by (simp add: one_at_a_time_def sys_init_def SystemPopups0_def Let_def)

lemma oat_cong:
  assumes "one_at_a_time s" "elements s' = elements s" "currentPopup s' = currentPopup s"
    "isShowingPopup s' = isShowingPopup s" "sys_timers s' = sys_timers s"
  shows "one_at_a_time s'"
  using assms by (simp add: one_at_a_time_def)

lemma oat_attached:
  assumes "one_at_a_time s" "i < length (elements s)" "el_attached (elements s ! i)"
  shows "currentPopup s = Some i"
  using assms by (simp add: one_at_a_time_def)

lemma attached_list_update:
  assumes "\<And>x. el_attached (g x) \<Longrightarrow> el_attached x" "i < length xs" "el_attached (xs[p := g (xs ! p)] ! i)"
  shows "el_attached (xs ! i)"
  using assms by (cases "i = p") (simp_all add: nth_list_update)

lemma oat_showNextPopup:
  assumes "one_at_a_time s" "currentPopup s = None" "sys_timers s = []"
  shows "one_at_a_time (showNextPopup s) \<and> sys_timers (showNextPopup s) = []"
  using assms
  by (auto simp: one_at_a_time_def showNextPopup_def Let_def nth_append split: list.split)

lemma oat_handleEntry:
  assumes oat: "one_at_a_time s"
  shows "one_at_a_time (handleEntry e s) \<and> sys_timers (handleEntry e s) = sys_timers s"
proof (cases e)
  case (Pair k b)
  show ?thesis
  proof (cases "b \<and> k < length (triggers s) \<and> \<not> truthy (popupTriggered (triggers s ! k))")
    case False
    then have "handleEntry e s = s"
      using Pair by (auto simp: handleEntry_def js_nth_def)
    with oat show ?thesis by simp
  next
    case True
    define t where "t = triggers s ! k"
    define s2 where "s2 = s\<lparr>triggers := (triggers s)[k := t\<lparr>popupTriggered := Some ''true''\<rparr>],
                 queue := queue s @ [\<lparr>d_image = popupImage t, d_html = popupHtml t,
                                      d_glitch = (popupGlitch t = Some ''true'')\<rparr>]\<rparr>"
    define s3 where "s3 = (if \<not> isShowingPopup s2 then showNextPopup s2 else s2)"
    have step: "handleEntry e s = s3\<lparr>observer := map_option (removeAll k) (observer s3)\<rparr>"
      using Pair True
      by (simp add: handleEntry_def js_nth_def Let_def s3_def s2_def t_def)
    have oat2: "one_at_a_time s2" and t2: "sys_timers s2 = sys_timers s"
      using oat by (simp_all add: one_at_a_time_def s2_def)
    have "one_at_a_time s3 \<and> sys_timers s3 = sys_timers s"
    proof (cases "isShowingPopup s2")
      case True
      with oat2 t2 show ?thesis by (simp add: s3_def)
    next
      case False
      with oat2 have "currentPopup s2 = None" "sys_timers s2 = []"
        by (auto simp: one_at_a_time_def)
      with oat_showNextPopup [OF oat2 this] False t2 show ?thesis by (simp add: s3_def)
    qed
    then have "one_at_a_time (s3\<lparr>observer := map_option (removeAll k) (observer s3)\<rparr>)"
      by (auto intro: oat_cong)
    with \<open>one_at_a_time s3 \<and> sys_timers s3 = sys_timers s\<close> show ?thesis
      by (simp add: step)
  qed
qed

lemma oat_handleIntersection:
  assumes "one_at_a_time s"
  shows "one_at_a_time (handleIntersection es s) \<and>
         sys_timers (handleIntersection es s) = sys_timers s"
  using assms
proof (induction es arbitrary: s)
  case Nil
  then show ?case by (simp add: handleIntersection_def)
next
  case (Cons e es)
  from oat_handleEntry [OF Cons.prems, of e] Cons.IH [of "handleEntry e s"]
  show ?case by (simp add: handleIntersection_def)
qed

lemma oat_closeCurrentPopup:
  assumes oat: "one_at_a_time s" and t: "sys_timers s = []" and sh: "isShowingPopup s"
  shows "one_at_a_time (closeCurrentPopup s)"
proof (cases "currentPopup s")
  case None
  with oat show ?thesis by (simp add: closeCurrentPopup_def)
next
  case (Some p)
  let ?els = "(elements s)[p := (elements s ! p)\<lparr>el_visible := False\<rparr>]"
  have "currentPopup s = Some i" if "i < length ?els" "el_attached (?els ! i)" for i
  proof -
    from that have "i < length (elements s)" by simp
    moreover from this that(2) have "el_attached (elements s ! i)"
      by (rule attached_list_update [rotated]) simp
    ultimately show ?thesis by (rule oat_attached [OF oat])
  qed
  with Some sh t show ?thesis
    by (simp add: closeCurrentPopup_def one_at_a_time_def)
qed

lemma oat_tick:
  assumes oat: "one_at_a_time s"
  shows "one_at_a_time (sys_step Tick s)"
proof -
  consider (none) "sys_timers s = []"
    | (close) d where "sys_timers s = [(d, CloseTimer)]" "isShowingPopup s"
    | (gap) d where "sys_timers s = [(d, ShowTimer)]" "isShowingPopup s" "currentPopup s = None"
    using oat by (auto simp: one_at_a_time_def)
  then show ?thesis
  proof cases
    case none
    with oat show ?thesis by simp
  next
    case close
    show ?thesis
    proof (cases "currentPopup s")
      case None
      with close oat show ?thesis
        by (simp add: one_at_a_time_def)
    next
      case (Some p)
      let ?els = "(elements s)[p := (elements s ! p)\<lparr>el_attached := False\<rparr>]"
      have "\<not> el_attached (?els ! i)" if "i < length ?els" for i
      proof (cases "i = p")
        case True
        with that show ?thesis by simp
      next
        case False
        with oat_attached [OF oat, of i] that Some show ?thesis by auto
      qed
      with close Some show ?thesis
        by (simp add: one_at_a_time_def)
    qed
  next
    case gap
    let ?s = "s\<lparr>sys_timers := [], sys_now := max (sys_now s) d\<rparr>"
    from oat gap have "one_at_a_time ?s" "currentPopup ?s = None" "sys_timers ?s = []"
      by (simp_all add: one_at_a_time_def)
    from oat_showNextPopup [OF this] gap show ?thesis by simp
  qed
qed

lemma oat_step:
  assumes oat: "one_at_a_time s" and sp: "dismissing e \<Longrightarrow> sys_timers s = []"
  shows "one_at_a_time (sys_step e s)"
proof (cases e)
  case Click
  with oat sp oat_closeCurrentPopup [OF oat] show ?thesis by simp
next
  case (KeyDown k)
  with oat sp oat_closeCurrentPopup [OF oat] show ?thesis by auto
next
  case (Intersect es)
  with oat oat_handleIntersection [OF oat, of es] show ?thesis by simp
next
  case (Elapse n)
  with oat show ?thesis by (simp add: one_at_a_time_def)
next
  case Tick
  with oat_tick [OF oat] show ?thesis by simp
qed

lemma oat_run:
  assumes "one_at_a_time s" "spaced evs s"
  shows "one_at_a_time (sys_run evs s)"
  using assms
proof (induction evs arbitrary: s)
  case Nil
  then show ?case by (simp add: sys_run_def)
next
  case (Cons e evs)
  from Cons.prems have "one_at_a_time (sys_step e s)" "spaced evs (sys_step e s)"
    by (auto intro: oat_step split: if_splits)
  from Cons.IH [OF this] show ?case by (simp add: sys_run_def)
qed

lemma spaced_take: "spaced evs s \<Longrightarrow> spaced (take n evs) s"
  by (induction evs arbitrary: s n) (auto simp: take_Cons split: nat.split)

lemma filter_at_most_one:
  assumes "\<And>i j. i < length xs \<Longrightarrow> j < length xs \<Longrightarrow> P (xs ! i) \<Longrightarrow> P (xs ! j) \<Longrightarrow> i = j"
  shows "length (filter P xs) \<le> 1"
  using assms
proof (induction xs)
  case Nil
  then show ?case by simp
next
  case (Cons x xs)
  have tail: "length (filter P xs) \<le> 1"
  proof (rule Cons.IH)
    fix i j
    assume "i < length xs" "j < length xs" "P (xs ! i)" "P (xs ! j)"
    with Cons.prems [of "Suc i" "Suc j"] show "i = j" by simp
  qed
  show ?case
  proof (cases "P x")
    case False
    with tail show ?thesis by simp
  next
    case True
    have "\<not> P y" if "y \<in> set xs" for y
    proof
      assume "P y"
      from that obtain j where "j < length xs" "xs ! j = y"
        by (auto simp: in_set_conv_nth)
      with Cons.prems [of 0 "Suc j"] True \<open>P y\<close> show False by simp
    qed
    then have "filter P xs = []" by (simp add: filter_empty_conv)
    with True show ?thesis by simp
  qed
qed

lemma oat_visible:
  assumes "one_at_a_time s"
  shows "length (visible_popups s) \<le> 1"
  unfolding visible_popups_def
proof (rule filter_at_most_one)
  fix i j
  assume "i < length (elements s)" "j < length (elements s)"
    and "el_attached (elements s ! i) \<and> el_visible (elements s ! i)"
    and "el_attached (elements s ! j) \<and> el_visible (elements s ! j)"
  then have "currentPopup s = Some i" "currentPopup s = Some j"
    using oat_attached [OF assms] by blast+
  then show "i = j" by simp
qed

text \<open>
  When every dismissing input finds no timer pending, at most one popup is on screen after
  every prefix of the schedule, that is, at any time.
\<close>

theorem one_popup_when_spaced:
  assumes "spaced evs (sys_init ms SystemPopups0)"
  shows "length (visible_popups (sys_run (take n evs) (sys_init ms SystemPopups0))) \<le> 1"
  using oat_visible [OF oat_run [OF oat_init spaced_take [OF assms]]] .

text \<open>The schedule of C1's failing input is not spaced: its second click finds the closing timer pending.\<close>

lemma double_click_not_spaced:
  "\<not> spaced [Intersect [(0, True)], Intersect [(1, True)], Intersect [(2, True)],
             Click, Elapse 100, Click, Tick, Tick, Tick, Tick]
        (sys_init three_markers SystemPopups0)"
  by (simp add: sys_init_def SystemPopups0_def three_markers_def handleIntersection_def
      handleEntry_def js_nth_def truthy_def showNextPopup_def popup_content_def js_or_def
      closeCurrentPopup_def showBackdrop_def hideBackdrop_def page0_def Let_def)

lemma spaced_dismissals_example:
  "spaced [Intersect [(0, True)], Intersect [(1, True)], Intersect [(2, True)],
           Click, Tick, Tick, KeyDown ''Escape'', Tick, Tick, Click, Tick, Tick]
     (sys_init three_markers SystemPopups0) \<and>
   map el_attached
     (elements (sys_run [Intersect [(0, True)], Intersect [(1, True)], Intersect [(2, True)],
           Click, Tick, Tick, KeyDown ''Escape'', Tick, Tick, Click, Tick, Tick]
        (sys_init three_markers SystemPopups0))) = [False, False, False] \<and>
   shown (sys_run [Intersect [(0, True)], Intersect [(1, True)], Intersect [(2, True)],
           Click, Tick, Tick, KeyDown ''Escape'', Tick, Tick, Click, Tick, Tick]
        (sys_init three_markers SystemPopups0)) = map marker_view three_markers"
  by (simp add: sys_run_def sys_init_def SystemPopups0_def three_markers_def handleIntersection_def
      handleEntry_def js_nth_def truthy_def showNextPopup_def popup_content_def js_or_def
      closeCurrentPopup_def showBackdrop_def hideBackdrop_def page0_def shown_def marker_view_def
      Let_def)

end
